theory Spec2Isabelle
  imports Main "HOL-Library.AList"
begin

section \<open>Callbacks, subscriptions and the timer capability\<close>

text \<open>
  A callback is a JavaScript function value \<open>() => void\<close>. Two kinds occur: a caller's
  function, identified by a label and by whether calling it raises, and the closure that
  \<open>IntervalPool.iterate\<close> registers for one of its sessions. What a caller's function
  calls on the pool before it returns or raises is given apart from the callback, by a script
  (section \<open>Callbacks that call the pool\<close>); \<open>invoke\<close> below is the call of a function that
  calls nothing.
\<close>

datatype callback = User nat bool | IterCallback nat

text \<open>
  \<open>IntervalSubscription\<close>: an object \<open>{ callback, once? }\<close>. The set of a bucket compares
  objects by reference, so every object carries its identity \<open>sid\<close>; an absent
  \<open>once\<close> is falsy.
\<close>

record subscription =
  sid :: nat
  callback :: callback
  once :: bool

text \<open>The program counter of the async generator behind \<open>iterate\<close>.\<close>

datatype gen_pc =
  NotStarted | Running | AwaitingPromise | PromiseResolved | AtYield | Exiting | Completed

text \<open>
  One iteration session: the local variables of \<open>iterate\<close> (\<open>resolve\<close> is true while a
  resolver function is stored, \<open>unsubscribe\<close> holds the subscription the stored unsubscribe
  function removes), the generator's program counter, the number of \<open>next()\<close> requests
  not yet settled and the number of requests settled with a yielded value.
\<close>

record session =
  s_delay :: nat
  lostTicks :: nat
  resolve :: bool
  stopped :: bool
  pc :: gen_pc
  requests :: nat
  delivered :: nat
  unsubscribe :: "subscription option"

text \<open>
  Everything outside a bucket: the timers that are live in the timer capability, each a
  triple of handle, handler (the bucket object whose tick handler was bound) and timeout,
  the next handle the capability hands out, the trace of the subscriptions whose callback has been invoked so far, the errors reported through \<open>console.error\<close>, the number of
  calls of the \<open>onStop\<close> function given to a bucket of \<open>src/bucket.ts\<close>, and the iteration
  sessions.
\<close>

record env =
  timers :: "(nat \<times> nat \<times> nat) list"
  next_handle :: nat
  calls :: "subscription list"
  console :: "callback list"
  onStop_calls :: nat
  sessions :: "nat \<Rightarrow> session"

text \<open>
  Modelled from the spec: the injected timer capability \<open>CustomInterval\<close>
  (\<open>setInterval\<close>/\<open>clearInterval\<close> by default), which is not code of the repository:
  \<open>schedule(onTick, period) -> handle\<close> and \<open>cancel(handle)\<close>. Handles are numbers handed
  out in sequence.
\<close>

definition interval_set :: "nat \<Rightarrow> nat \<Rightarrow> 'a env_scheme \<Rightarrow> nat \<times> 'a env_scheme" where
  "interval_set handler timeout e =
     (next_handle e,
      e\<lparr>timers := timers e @ [(next_handle e, handler, timeout)],
        next_handle := Suc (next_handle e)\<rparr>)"

definition interval_clear :: "nat \<Rightarrow> 'a env_scheme \<Rightarrow> 'a env_scheme" where
  "interval_clear h e = e\<lparr>timers := filter (\<lambda>t. fst t \<noteq> h) (timers e)\<rparr>"

text \<open>JavaScript truthiness of a stored handle: \<open>undefined\<close> and the number 0 are falsy.\<close>

fun truthy :: "nat option \<Rightarrow> bool" where
  "truthy None = False"
| "truthy (Some h) = (h \<noteq> 0)"

text \<open>\<open>Set.prototype.add\<close> and \<open>delete\<close> on an insertion-ordered set of objects.\<close>

definition set_add :: "'a \<Rightarrow> 'a list \<Rightarrow> 'a list" where
  "set_add x xs = (if x \<in> set xs then xs else xs @ [x])"

definition set_delete :: "'a \<Rightarrow> 'a list \<Rightarrow> 'a list" where
  "set_delete x xs = removeAll x xs"

text \<open>
  Calling the callback of a subscription records the subscription in the trace. A caller's
  function raises or returns; the closure of \<open>iterate\<close> runs \<open>lostTicks++; if (resolve) { resolve(); resolve = undefined }\<close>,
  where \<open>resolve()\<close> settles the promise the generator awaits. The result says whether the
  call raised.
\<close>

definition iter_callback :: "session \<Rightarrow> session" where
  "iter_callback s =
     (let s1 = s\<lparr>lostTicks := Suc (lostTicks s)\<rparr>
      in if resolve s1
         then s1\<lparr>pc := PromiseResolved, resolve := False\<rparr>
         else s1)"

definition invoke :: "subscription \<Rightarrow> 'a env_scheme \<Rightarrow> bool \<times> 'a env_scheme" where
  "invoke s e =
     (case callback s of
        User l t \<Rightarrow> (t, e\<lparr>calls := calls e @ [s]\<rparr>)
      | IterCallback k \<Rightarrow>
          (False, e\<lparr>calls := calls e @ [s],
                    sessions := (sessions e)(k := iter_callback (sessions e k))\<rparr>))"

section \<open>The bucket of \<open>src/bucket.ts\<close>\<close>

text \<open>
  \<open>IntervalBucket\<close> with the fields \<open>#intervalId\<close>, \<open>#delay\<close> and \<open>#subscriptions\<close>;
  \<open>#interval\<close> is the timer capability above and \<open>#onStop\<close> an opaque function whose calls
  are counted in the environment. A bucket used on its own is handler 0 of its timers.
\<close>

record bucket =
  intervalId :: "nat option"
  delay :: nat
  subscriptions :: "subscription list"

definition new_bucket :: "nat \<Rightarrow> bucket" where
  "new_bucket d = \<lparr>intervalId = None, delay = d, subscriptions = []\<rparr>"

definition tryStart :: "bucket \<times> env \<Rightarrow> bucket \<times> env" where
  "tryStart be =
     (case be of (b, e) \<Rightarrow>
        if truthy (intervalId b) then (b, e)
        else (case interval_set 0 (delay b) e of (h, e') \<Rightarrow> (b\<lparr>intervalId := Some h\<rparr>, e')))"

definition tryStop :: "bucket \<times> env \<Rightarrow> bucket \<times> env" where
  "tryStop be =
     (case be of (b, e) \<Rightarrow>
        if length (subscriptions b) > 0 then (b, e)
        else if \<not> truthy (intervalId b) then (b, e)
        else (b\<lparr>intervalId := None\<rparr>,
              (interval_clear (the (intervalId b)) e)\<lparr>onStop_calls := Suc (onStop_calls e)\<rparr>))"

definition add :: "subscription \<Rightarrow> bucket \<times> env \<Rightarrow> bucket \<times> env" where
  "add s be =
     (case be of (b, e) \<Rightarrow> tryStart (b\<lparr>subscriptions := set_add s (subscriptions b)\<rparr>, e))"

definition delete :: "subscription \<Rightarrow> bucket \<times> env \<Rightarrow> bucket \<times> env" where
  "delete s be =
     (case be of (b, e) \<Rightarrow> tryStop (b\<lparr>subscriptions := set_delete s (subscriptions b)\<rparr>, e))"

definition dispose :: "bucket \<times> env \<Rightarrow> bucket \<times> env" where
  "dispose be = (case be of (b, e) \<Rightarrow> tryStop (b\<lparr>subscriptions := []\<rparr>, e))"

text \<open>
  The body of the function given to \<open>forEach\<close>: \<open>try { callback() } catch { console.error }
  finally { if (once) this.delete(subscription) }\<close>.
\<close>

definition notify :: "subscription \<Rightarrow> bucket \<times> env \<Rightarrow> bucket \<times> env" where
  "notify s be =
     (case be of (b, e) \<Rightarrow>
        (case invoke s e of (thrown, e1) \<Rightarrow>
           let e2 = (if thrown then e1\<lparr>console := console e1 @ [callback s]\<rparr> else e1)
           in if once s then delete s (b, e2) else (b, e2)))"

text \<open>
  \<open>Set.prototype.forEach\<close> visits the entries in insertion order and skips an entry deleted
  before its turn. No callback of the model adds an entry during the walk, so the entries
  to visit are those present when the walk starts.
\<close>

fun forEach :: "subscription list \<Rightarrow> bucket \<times> env \<Rightarrow> bucket \<times> env" where
  "forEach [] be = be"
| "forEach (s # rest) be =
     (if s \<in> set (subscriptions (fst be)) then forEach rest (notify s be) else forEach rest be)"

definition handleIntervalTick :: "bucket \<times> env \<Rightarrow> bucket \<times> env" where
  "handleIntervalTick be = forEach (subscriptions (fst be)) be"

section \<open>The bucket with a disposed state and the pool of \<open>index.ts\<close>\<close>

text \<open>
  The second \<open>IntervalBucket\<close> of the repository, the one \<open>IntervalPool\<close> is written
  against (\<open>remove\<close>, \<open>stop\<close>, \<open>dispose\<close>, the public \<open>delay\<close>). \<open>b_onEmpty\<close> says
  whether \<open>#onEmpty\<close> still holds the owner's function, which is the pool's
  \<open>#onEmptyBucket\<close>.
\<close>

record ibucket =
  b_disposed :: bool
  b_intervalId :: "nat option"
  b_onEmpty :: bool
  b_delay :: nat
  b_subscriptions :: "subscription list"

datatype error = CannotAdd | CannotRemove | CannotStop

text \<open>
  The state of one pool and its surroundings: the environment, \<open>#buckets\<close> (a \<open>Map\<close> from
  delay to bucket object, in insertion order), the bucket objects by address, the counters
  that give fresh addresses, subscription identities and session numbers, and the number of
  calls a bucket made to its \<open>#onEmpty\<close> function.
\<close>

record pool = env +
  buckets :: "(nat \<times> nat) list"
  objects :: "nat \<Rightarrow> ibucket"
  next_obj :: nat
  next_sid :: nat
  next_session :: nat
  onEmpty_calls :: nat

definition upd :: "nat \<Rightarrow> (ibucket \<Rightarrow> ibucket) \<Rightarrow> pool \<Rightarrow> pool" where
  "upd a f st = st\<lparr>objects := (objects st)(a := f (objects st a))\<rparr>"

definition bucket_tryStart :: "nat \<Rightarrow> pool \<Rightarrow> pool" where
  "bucket_tryStart a st =
     (if truthy (b_intervalId (objects st a)) then st
      else (case interval_set a (b_delay (objects st a)) st of
              (h, st') \<Rightarrow> upd a (\<lambda>b. b\<lparr>b_intervalId := Some h\<rparr>) st'))"

definition bucket_add :: "nat \<Rightarrow> subscription \<Rightarrow> pool \<Rightarrow> error option \<times> pool" where
  "bucket_add a s st =
     (if b_disposed (objects st a) then (Some CannotAdd, st)
      else (None,
            bucket_tryStart a
              (upd a (\<lambda>b. b\<lparr>b_subscriptions := set_add s (b_subscriptions b)\<rparr>) st)))"

definition bucket_stop :: "nat \<Rightarrow> pool \<Rightarrow> error option \<times> pool" where
  "bucket_stop a st =
     (if b_disposed (objects st a) then (Some CannotStop, st)
      else if truthy (b_intervalId (objects st a))
      then (None, upd a (\<lambda>b. b\<lparr>b_intervalId := None\<rparr>)
                    (interval_clear (the (b_intervalId (objects st a))) st))
      else (None, st))"

definition bucket_dispose :: "nat \<Rightarrow> pool \<Rightarrow> error option \<times> pool" where
  "bucket_dispose a st =
     (if b_disposed (objects st a) then (None, st)
      else (case bucket_stop a (upd a (\<lambda>b. b\<lparr>b_subscriptions := []\<rparr>) st) of
              (Some e, st1) \<Rightarrow> (Some e, st1)
            | (None, st1) \<Rightarrow>
                (None, upd a (\<lambda>b. b\<lparr>b_onEmpty := False, b_disposed := True\<rparr>) st1)))"

text \<open>\<open>IntervalPool.#onEmptyBucket\<close>: dispose the bucket, then drop its key.\<close>

definition onEmptyBucket :: "nat \<Rightarrow> pool \<Rightarrow> error option \<times> pool" where
  "onEmptyBucket a st =
     (case bucket_dispose a st of
        (Some e, st1) \<Rightarrow> (Some e, st1)
      | (None, st1) \<Rightarrow>
          (None, st1\<lparr>buckets := AList.delete (b_delay (objects st1 a)) (buckets st1)\<rparr>))"

definition bucket_remove :: "nat \<Rightarrow> subscription \<Rightarrow> pool \<Rightarrow> error option \<times> pool" where
  "bucket_remove a s st =
     (if b_disposed (objects st a) then (Some CannotRemove, st)
      else
        let st1 = upd a (\<lambda>b. b\<lparr>b_subscriptions := set_delete s (b_subscriptions b)\<rparr>) st
        in if length (b_subscriptions (objects st1 a)) = 0
           then (case bucket_stop a st1 of
                   (Some e, st2) \<Rightarrow> (Some e, st2)
                 | (None, st2) \<Rightarrow>
                     if b_onEmpty (objects st2 a)
                     then onEmptyBucket a (st2\<lparr>onEmpty_calls := Suc (onEmpty_calls st2)\<rparr>)
                     else (None, st2))
           else (None, st1))"

text \<open>
  \<open>#notifySubscription\<close>: the error of the callback is caught and logged; an error of
  \<open>remove\<close> in the \<open>finally\<close> block leaves the method.
\<close>

definition notifySubscription :: "nat \<Rightarrow> subscription \<Rightarrow> pool \<Rightarrow> error option \<times> pool" where
  "notifySubscription a s st =
     (case invoke s st of (thrown, st1) \<Rightarrow>
        let st2 = (if thrown then st1\<lparr>console := console st1 @ [callback s]\<rparr> else st1)
        in if once s then bucket_remove a s st2 else (None, st2))"

fun bucket_forEach :: "subscription list \<Rightarrow> nat \<Rightarrow> pool \<Rightarrow> error option \<times> pool" where
  "bucket_forEach [] a st = (None, st)"
| "bucket_forEach (s # rest) a st =
     (if s \<in> set (b_subscriptions (objects st a))
      then (case notifySubscription a s st of
              (Some e, st1) \<Rightarrow> (Some e, st1)
            | (None, st1) \<Rightarrow> bucket_forEach rest a st1)
      else bucket_forEach rest a st)"

definition bucket_handleIntervalTick :: "nat \<Rightarrow> pool \<Rightarrow> error option \<times> pool" where
  "bucket_handleIntervalTick a st = bucket_forEach (b_subscriptions (objects st a)) a st"

definition new_pool :: pool where
  "new_pool =
     \<lparr>timers = [], next_handle = 1, calls = [], console = [], onStop_calls = 0,
      sessions = (\<lambda>k. \<lparr>s_delay = 0, lostTicks = 0, resolve = False, stopped = False,
                       pc = Completed, requests = 0, delivered = 0, unsubscribe = None\<rparr>),
      buckets = [],
      objects = (\<lambda>a. \<lparr>b_disposed = False, b_intervalId = None, b_onEmpty = False,
                       b_delay = 0, b_subscriptions = []\<rparr>),
      next_obj = 0, next_sid = 0, next_session = 0, onEmpty_calls = 0\<rparr>"

definition upsertBucket :: "nat \<Rightarrow> pool \<Rightarrow> nat \<times> pool" where
  "upsertBucket d st =
     (case map_of (buckets st) d of
        Some a \<Rightarrow> (a, st)
      | None \<Rightarrow>
          (next_obj st,
           st\<lparr>objects := (objects st)(next_obj st :=
                  \<lparr>b_disposed = False, b_intervalId = None, b_onEmpty = True,
                   b_delay = d, b_subscriptions = []\<rparr>),
              next_obj := Suc (next_obj st),
              buckets := AList.update d (next_obj st) (buckets st)\<rparr>))"

text \<open>
  \<open>#subscribe\<close>; the function it returns is \<open>unsubscribe d s\<close>, which looks the bucket up
  again at every call.
\<close>

definition subscribe :: "nat \<Rightarrow> subscription \<Rightarrow> pool \<Rightarrow> error option \<times> pool" where
  "subscribe d s st = (case upsertBucket d st of (a, st1) \<Rightarrow> bucket_add a s st1)"

definition unsubscribe_fn :: "nat \<Rightarrow> subscription \<Rightarrow> pool \<Rightarrow> error option \<times> pool" where
  "unsubscribe_fn d s st =
     (case map_of (buckets st) d of
        None \<Rightarrow> (None, st)
      | Some a \<Rightarrow> bucket_remove a s st)"

text \<open>
  \<open>run\<close> and \<open>once\<close> build a new subscription object and return it with the outcome; the
  caller's unsubscribe function is \<open>unsubscribe_fn d\<close> of that object.
\<close>

definition run :: "nat \<Rightarrow> callback \<Rightarrow> pool \<Rightarrow> error option \<times> subscription \<times> pool" where
  "run d cb st =
     (let s = \<lparr>sid = next_sid st, callback = cb, once = False\<rparr>
      in case subscribe d s (st\<lparr>next_sid := Suc (next_sid st)\<rparr>) of (r, st1) \<Rightarrow> (r, s, st1))"

definition once_fn :: "nat \<Rightarrow> callback \<Rightarrow> pool \<Rightarrow> error option \<times> subscription \<times> pool" where
  "once_fn d cb st =
     (let s = \<lparr>sid = next_sid st, callback = cb, once = True\<rparr>
      in case subscribe d s (st\<lparr>next_sid := Suc (next_sid st)\<rparr>) of (r, st1) \<Rightarrow> (r, s, st1))"

fun dispose_all :: "(nat \<times> nat) list \<Rightarrow> pool \<Rightarrow> error option \<times> pool" where
  "dispose_all [] st = (None, st)"
| "dispose_all (da # rest) st =
     (case bucket_dispose (snd da) st of
        (Some e, st1) \<Rightarrow> (Some e, st1)
      | (None, st1) \<Rightarrow> dispose_all rest st1)"

definition clear :: "pool \<Rightarrow> error option \<times> pool" where
  "clear st =
     (case dispose_all (buckets st) st of
        (Some e, st1) \<Rightarrow> (Some e, st1)
      | (None, st1) \<Rightarrow> (None, st1\<lparr>buckets := []\<rparr>))"

definition getActiveIntervalCount :: "pool \<Rightarrow> nat" where
  "getActiveIntervalCount st = length (buckets st)"

definition getSubscriptionCount :: "nat \<Rightarrow> pool \<Rightarrow> nat" where
  "getSubscriptionCount d st =
     (case map_of (buckets st) d of
        None \<Rightarrow> 0
      | Some a \<Rightarrow> length (b_subscriptions (objects st a)))"

definition getStats :: "pool \<Rightarrow> (nat \<times> nat) list" where
  "getStats st =
     map (\<lambda>da. (fst da, length (b_subscriptions (objects st (snd da))))) (buckets st)"

text \<open>
  The timer capability fires the live timer with handle \<open>h\<close>: the tick handler bound to the
  bucket that scheduled it runs. The result says whether an error reached the capability.
\<close>

definition fire :: "nat \<Rightarrow> pool \<Rightarrow> error option \<times> pool" where
  "fire h st =
     (case find (\<lambda>t. fst t = h) (timers st) of
        None \<Rightarrow> (None, st)
      | Some t \<Rightarrow> bucket_handleIntervalTick (fst (snd t)) st)"


section \<open>\<open>IntervalPool.iterate\<close>\<close>

text \<open>
  The two loops of the generator body, from the head of the outer \<open>while (!stopped)\<close> and
  from the head of the inner \<open>while (lostTicks > 0)\<close>. The generator runs only while a
  \<open>next()\<close> request is unsettled; \<open>yield\<close> settles the oldest request, and the generator goes
  on with \<open>lostTicks--\<close> at once when another request is queued, else it stays at the
  \<open>yield\<close>. \<open>await\<close> stores the resolver and suspends.
\<close>

function gen_outer :: "session \<Rightarrow> session" and gen_inner :: "session \<Rightarrow> session" where
  "gen_outer s =
     (if stopped s then s\<lparr>pc := Exiting\<rparr>
      else if lostTicks s = 0 then s\<lparr>resolve := True, pc := AwaitingPromise\<rparr>
      else gen_inner s)"
| "gen_inner s =
     (if lostTicks s > 0
      then (let s1 = s\<lparr>requests := requests s - 1, delivered := Suc (delivered s)\<rparr>
            in if requests s1 > 0 then gen_inner (s1\<lparr>lostTicks := lostTicks s1 - 1\<rparr>)
               else s1\<lparr>pc := AtYield\<rparr>)
      else gen_outer s)"
  by pat_completeness auto
termination
  by (relation "measure (\<lambda>x. case x of
         Inl s \<Rightarrow> (if lostTicks s = 0 then 0 else 2 * lostTicks s + 2)
       | Inr s \<Rightarrow> 2 * lostTicks s + 1)") auto

declare gen_outer.simps [simp del] gen_inner.simps [simp del]

definition set_session :: "nat \<Rightarrow> session \<Rightarrow> pool \<Rightarrow> pool" where
  "set_session k s st = st\<lparr>sessions := (sessions st)(k := s)\<rparr>"

text \<open>
  Calling \<open>iterate\<close> only creates the generator object: the body, and with it the call of
  \<open>run\<close>, starts at the first \<open>next()\<close>.
\<close>

definition iterate :: "nat \<Rightarrow> pool \<Rightarrow> nat \<times> pool" where
  "iterate d st =
     (next_session st,
      (set_session (next_session st)
         \<lparr>s_delay = d, lostTicks = 0, resolve = False, stopped = False, pc = NotStarted,
          requests = 0, delivered = 0, unsubscribe = None\<rparr> st)
        \<lparr>next_session := Suc (next_session st)\<rparr>)"

text \<open>The \<open>finally\<close> block, run when the loop has been left.\<close>

definition gen_finally :: "nat \<Rightarrow> pool \<Rightarrow> error option \<times> pool" where
  "gen_finally k st =
     (let s = sessions st k;
          st1 = set_session k (s\<lparr>stopped := True\<rparr>) st
      in case (case unsubscribe s of
                 None \<Rightarrow> (None, st1)
               | Some sub \<Rightarrow> unsubscribe_fn (s_delay s) sub st1) of
           (r, st2) \<Rightarrow> (r, set_session k ((sessions st2 k)\<lparr>pc := Completed\<rparr>) st2))"

definition gen_continue :: "nat \<Rightarrow> pool \<Rightarrow> error option \<times> pool" where
  "gen_continue k st = (if pc (sessions st k) = Exiting then gen_finally k st else (None, st))"

text \<open>
  A pull, \<open>next()\<close> of the generator: it starts the body, resumes it after a \<open>yield\<close>, or
  is queued while the body awaits the promise.
\<close>

definition gen_next :: "nat \<Rightarrow> pool \<Rightarrow> error option \<times> pool" where
  "gen_next k st =
     (let s = sessions st k in
      case pc s of
        NotStarted \<Rightarrow>
          (case run (s_delay s) (IterCallback k)
                  (set_session k (s\<lparr>requests := Suc (requests s), pc := Running\<rparr>) st) of
             (Some e, sub, st1) \<Rightarrow>
               (Some e, set_session k ((sessions st1 k)\<lparr>pc := Completed\<rparr>) st1)
           | (None, sub, st1) \<Rightarrow>
               gen_continue k
                 (set_session k (gen_outer ((sessions st1 k)\<lparr>unsubscribe := Some sub\<rparr>)) st1))
      | AtYield \<Rightarrow>
          gen_continue k
            (set_session k
               (gen_inner (s\<lparr>requests := Suc (requests s), lostTicks := lostTicks s - 1,
                             pc := Running\<rparr>)) st)
      | Completed \<Rightarrow> (None, st)
      | _ \<Rightarrow> (None, set_session k (s\<lparr>requests := Suc (requests s)\<rparr>) st))"

text \<open>The job that continues the body after the awaited promise has been settled.\<close>

definition gen_wake :: "nat \<Rightarrow> pool \<Rightarrow> error option \<times> pool" where
  "gen_wake k st =
     (let s = sessions st k in
      if pc s = PromiseResolved
      then gen_continue k (set_session k (gen_inner (s\<lparr>pc := Running\<rparr>)) st)
      else (None, st))"


section \<open>Callbacks that call the pool\<close>

text \<open>
  A caller's function may call the pool while a tick runs it: the function that \<open>run\<close> or
  \<open>once\<close> returned, its own or another one (as the heartbeat callback of the README does),
  and \<open>clear()\<close>. A script gives, for the label of a caller's function, the calls it makes
  in order before it returns or raises. Scripts hold no call of \<open>run\<close> or \<open>once\<close>, so no
  entry is added to a set during a walk.
\<close>

datatype pool_call = CallUnsubscribe nat subscription | CallClear

definition perform :: "pool_call \<Rightarrow> pool \<Rightarrow> error option \<times> pool" where
  "perform c st =
     (case c of
        CallUnsubscribe d s \<Rightarrow> unsubscribe_fn d s st
      | CallClear \<Rightarrow> clear st)"

fun perform_all :: "pool_call list \<Rightarrow> pool \<Rightarrow> error option \<times> pool" where
  "perform_all [] st = (None, st)"
| "perform_all (c # cs) st =
     (case perform c st of
        (Some e, st1) \<Rightarrow> (Some e, st1)
      | (None, st1) \<Rightarrow> perform_all cs st1)"

text \<open>
  Calling the callback of a subscription: a caller's function makes the calls of its script;
  an error of one of them ends the function as a raise, otherwise the function raises or
  returns as its label says.
\<close>

definition invoke_script ::
  "(nat \<Rightarrow> pool_call list) \<Rightarrow> subscription \<Rightarrow> pool \<Rightarrow> bool \<times> pool" where
  "invoke_script script s st =
     (case callback s of
        User l t \<Rightarrow>
          (case perform_all (script l) (st\<lparr>calls := calls st @ [s]\<rparr>) of
             (Some e, st1) \<Rightarrow> (True, st1)
           | (None, st1) \<Rightarrow> (t, st1))
      | IterCallback k \<Rightarrow> invoke s st)"

text \<open>
  \<open>#notifySubscription\<close>, \<open>forEach\<close> and the tick of a live timer, with callbacks that follow
  a script. An entry removed before its turn is skipped.
\<close>

definition notifySubscription_script ::
  "(nat \<Rightarrow> pool_call list) \<Rightarrow> nat \<Rightarrow> subscription \<Rightarrow> pool \<Rightarrow> error option \<times> pool" where
  "notifySubscription_script script a s st =
     (case invoke_script script s st of (thrown, st1) \<Rightarrow>
        let st2 = (if thrown then st1\<lparr>console := console st1 @ [callback s]\<rparr> else st1)
        in if once s then bucket_remove a s st2 else (None, st2))"

fun bucket_forEach_script ::
  "(nat \<Rightarrow> pool_call list) \<Rightarrow> subscription list \<Rightarrow> nat \<Rightarrow> pool \<Rightarrow> error option \<times> pool" where
  "bucket_forEach_script script [] a st = (None, st)"
| "bucket_forEach_script script (s # rest) a st =
     (if s \<in> set (b_subscriptions (objects st a))
      then (case notifySubscription_script script a s st of
              (Some e, st1) \<Rightarrow> (Some e, st1)
            | (None, st1) \<Rightarrow> bucket_forEach_script script rest a st1)
      else bucket_forEach_script script rest a st)"

definition bucket_handleIntervalTick_script ::
  "(nat \<Rightarrow> pool_call list) \<Rightarrow> nat \<Rightarrow> pool \<Rightarrow> error option \<times> pool" where
  "bucket_handleIntervalTick_script script a st =
     bucket_forEach_script script (b_subscriptions (objects st a)) a st"

definition fire_script :: "(nat \<Rightarrow> pool_call list) \<Rightarrow> nat \<Rightarrow> pool \<Rightarrow> error option \<times> pool" where
  "fire_script script h st =
     (case find (\<lambda>t. fst t = h) (timers st) of
        None \<Rightarrow> (None, st)
      | Some t \<Rightarrow> bucket_handleIntervalTick_script script (fst (snd t)) st)"


section \<open>The tick handler written inline in the earlier \<open>index.ts\<close>\<close>

text \<open>
  The earlier \<open>IntervalPool\<close> keeps, for each delay, an object \<open>{ intervalId, subscriptions }\<close>
  and gives the timer capability a closure over the set and the delay. Sets are objects in a
  store; a timer is the triple of its handle, the address of the set its closure walks and its
  timeout, which is the delay the closure removes with.
\<close>

record old_bucket =
  o_intervalId :: nat
  o_subscriptions :: nat

record old_pool = env +
  o_buckets :: "(nat \<times> old_bucket) list"
  o_sets :: "nat \<Rightarrow> subscription list"
  o_next_set :: nat
  o_next_sid :: nat

definition empty_old_pool :: old_pool where
  "empty_old_pool =
     \<lparr>timers = [], next_handle = 1, calls = [], console = [], onStop_calls = 0,
      sessions = (\<lambda>k. \<lparr>s_delay = 0, lostTicks = 0, resolve = False, stopped = False,
                       pc = Completed, requests = 0, delivered = 0, unsubscribe = None\<rparr>),
      o_buckets = [], o_sets = (\<lambda>a. []), o_next_set = 0, o_next_sid = 0\<rparr>"

definition addsubscription :: "nat \<Rightarrow> subscription \<Rightarrow> old_pool \<Rightarrow> old_pool" where
  "addsubscription d s st =
     (case (case map_of (o_buckets st) d of
              Some b \<Rightarrow> (b, st)
            | None \<Rightarrow>
                (case interval_set (o_next_set st) d
                        (st\<lparr>o_sets := (o_sets st)(o_next_set st := []),
                            o_next_set := Suc (o_next_set st)\<rparr>) of
                   (h, st1) \<Rightarrow>
                     (\<lparr>o_intervalId = h, o_subscriptions = o_next_set st\<rparr>,
                      st1\<lparr>o_buckets :=
                            AList.update d \<lparr>o_intervalId = h, o_subscriptions = o_next_set st\<rparr>
                              (o_buckets st1)\<rparr>))) of
        (b, st2) \<Rightarrow>
          st2\<lparr>o_sets := (o_sets st2)(o_subscriptions b :=
                                     set_add s (o_sets st2 (o_subscriptions b)))\<rparr>)"

definition removeSubscription :: "nat \<Rightarrow> subscription \<Rightarrow> old_pool \<Rightarrow> old_pool" where
  "removeSubscription d s st =
     (case map_of (o_buckets st) d of
        None \<Rightarrow> st
      | Some b \<Rightarrow>
          let st1 = st\<lparr>o_sets := (o_sets st)(o_subscriptions b :=
                                     set_delete s (o_sets st (o_subscriptions b)))\<rparr>
          in if length (o_sets st1 (o_subscriptions b)) = 0
             then (interval_clear (o_intervalId b) st1)\<lparr>o_buckets := AList.delete d (o_buckets st1)\<rparr>
             else st1)"

definition run_old :: "nat \<Rightarrow> callback \<Rightarrow> old_pool \<Rightarrow> subscription \<times> old_pool" where
  "run_old d cb st =
     (let s = \<lparr>sid = o_next_sid st, callback = cb, once = False\<rparr>
      in (s, addsubscription d s (st\<lparr>o_next_sid := Suc (o_next_sid st)\<rparr>)))"

definition once_old :: "nat \<Rightarrow> callback \<Rightarrow> old_pool \<Rightarrow> subscription \<times> old_pool" where
  "once_old d cb st =
     (let s = \<lparr>sid = o_next_sid st, callback = cb, once = True\<rparr>
      in (s, addsubscription d s (st\<lparr>o_next_sid := Suc (o_next_sid st)\<rparr>)))"

text \<open>
  The function given to \<open>forEach\<close> by the closure: \<open>try { callback(); if (once)
  this.#removeSubscription(delay, subscription) } catch (error) { console.error(...) }\<close>. A
  raise of the callback leaves the \<open>try\<close> block before the removal.
\<close>

definition notify_old :: "nat \<Rightarrow> subscription \<Rightarrow> old_pool \<Rightarrow> old_pool" where
  "notify_old d s st =
     (case invoke s st of (thrown, st1) \<Rightarrow>
        if thrown then st1\<lparr>console := console st1 @ [callback s]\<rparr>
        else if once s then removeSubscription d s st1
        else st1)"

fun forEach_old :: "subscription list \<Rightarrow> nat \<Rightarrow> nat \<Rightarrow> old_pool \<Rightarrow> old_pool" where
  "forEach_old [] a d st = st"
| "forEach_old (s # rest) a d st =
     (if s \<in> set (o_sets st a) then forEach_old rest a d (notify_old d s st)
      else forEach_old rest a d st)"

definition fire_old :: "nat \<Rightarrow> old_pool \<Rightarrow> old_pool" where
  "fire_old h st =
     (case find (\<lambda>t. fst t = h) (timers st) of
        None \<Rightarrow> st
      | Some t \<Rightarrow> forEach_old (o_sets st (fst (snd t))) (fst (snd t)) (snd (snd t)) st)"

definition getSubscriptionCount_old :: "nat \<Rightarrow> old_pool \<Rightarrow> nat" where
  "getSubscriptionCount_old d st =
     (case map_of (o_buckets st) d of
        None \<Rightarrow> 0
      | Some b \<Rightarrow> length (o_sets st (o_subscriptions b)))"


section \<open>Observers and initial states used in the statements\<close>

text \<open>Whether calling a callback raises.\<close>

fun cb_throws :: "callback \<Rightarrow> bool" where
  "cb_throws (User l t) = t"
| "cb_throws (IterCallback k) = False"

text \<open>The surroundings of a bucket used on its own, before anything has happened.\<close>

definition new_env :: env where
  "new_env =
     \<lparr>timers = [], next_handle = 1, calls = [], console = [], onStop_calls = 0,
      sessions = (\<lambda>k. \<lparr>s_delay = 0, lostTicks = 0, resolve = False, stopped = False,
                       pc = Completed, requests = 0, delivered = 0, unsubscribe = None\<rparr>)\<rparr>"

text \<open>The subscriptions registered at a delay, and the live timers scheduled with it.\<close>

definition subscriptions_at :: "nat \<Rightarrow> pool \<Rightarrow> subscription list" where
  "subscriptions_at d st =
     (case map_of (buckets st) d of
        None \<Rightarrow> []
      | Some a \<Rightarrow> b_subscriptions (objects st a))"

definition timers_for :: "nat \<Rightarrow> pool \<Rightarrow> (nat \<times> nat \<times> nat) list" where
  "timers_for d st = filter (\<lambda>t. snd (snd t) = d) (timers st)"

text \<open>
  The operations a caller and the runtime perform on a pool: the public methods, a call of
  a function returned by \<open>run\<close> or \<open>once\<close>, a timer firing, a pull on a generator and the
  job that resumes a generator.
\<close>

datatype op =
  Run nat callback | Once nat callback | Unsubscribe nat subscription | Fire nat | Clear
  | Iterate nat | Next nat | Wake nat

fun step :: "op \<Rightarrow> pool \<Rightarrow> error option \<times> pool" where
  "step (Run d cb) st = (case run d cb st of (r, s, st1) \<Rightarrow> (r, st1))"
| "step (Once d cb) st = (case once_fn d cb st of (r, s, st1) \<Rightarrow> (r, st1))"
| "step (Unsubscribe d s) st = unsubscribe_fn d s st"
| "step (Fire h) st = fire h st"
| "step Clear st = clear st"
| "step (Iterate d) st = (None, snd (iterate d st))"
| "step (Next k) st = gen_next k st"
| "step (Wake k) st = gen_wake k st"

fun steps :: "op list \<Rightarrow> pool \<Rightarrow> pool" where
  "steps [] st = st"
| "steps (x # xs) st = steps xs (snd (step x st))"

text \<open>
  The invariant of the pool: every key of the map leads to its own live bucket, which is not
  disposed, holds at least one subscription and holds the truthy handle of a live timer
  bound to it; every live timer belongs to such a bucket; handles, subscription identities
  and addresses in use are below the counters that give fresh ones.
\<close>

definition bucket_ok :: "pool \<Rightarrow> nat \<Rightarrow> nat \<Rightarrow> bool" where
  "bucket_ok st d a =
     (\<not> b_disposed (objects st a) \<and> b_onEmpty (objects st a) \<and>
      b_delay (objects st a) = d \<and> a < next_obj st \<and>
      b_subscriptions (objects st a) \<noteq> [] \<and> distinct (b_subscriptions (objects st a)) \<and>
      (\<forall>s \<in> set (b_subscriptions (objects st a)). sid s < next_sid st) \<and>
      (case b_intervalId (objects st a) of
         None \<Rightarrow> False
       | Some h \<Rightarrow> h \<noteq> 0 \<and> (h, a, d) \<in> set (timers st)))"

definition pool_inv :: "pool \<Rightarrow> bool" where
  "pool_inv st =
     (0 < next_handle st \<and>
      distinct (map fst (buckets st)) \<and> distinct (map snd (buckets st)) \<and>
      (\<forall>da \<in> set (buckets st). bucket_ok st (fst da) (snd da)) \<and>
      (\<forall>t \<in> set (timers st).
          fst t < next_handle st \<and> (snd (snd t), fst (snd t)) \<in> set (buckets st) \<and>
          b_intervalId (objects st (fst (snd t))) = Some (fst t)) \<and>
      distinct (map fst (timers st)) \<and>
      (\<forall>s \<in> set (calls st). sid s < next_sid st))"

text \<open>The handles held by the buckets of a list of map entries.\<close>

definition handles_of :: "(nat \<times> nat) list \<Rightarrow> pool \<Rightarrow> nat list" where
  "handles_of bs st = map (\<lambda>da. the (b_intervalId (objects st (snd da)))) bs"

text \<open>An operation that registers a subscription at delay \<open>p\<close>.\<close>

fun subscribes_at :: "nat \<Rightarrow> op \<Rightarrow> bool" where
  "subscribes_at p (Run d cb) = (d = p)"
| "subscribes_at p (Once d cb) = (d = p)"
| "subscribes_at p x = False"

text \<open>
  Session \<open>k\<close> is attached to the live timer \<open>h\<close> of delay \<open>d\<close>: the bucket of \<open>d\<close> holds
  exactly one subscription with the callback of the session, a recurring one, and the loop
  of the session has not been told to stop.
\<close>

definition attached :: "nat \<Rightarrow> nat \<Rightarrow> nat \<Rightarrow> pool \<Rightarrow> bool" where
  "attached k d h st =
     (pool_inv st \<and>
      (case find (\<lambda>t. fst t = h) (timers st) of None \<Rightarrow> False | Some t \<Rightarrow> snd (snd t) = d) \<and>
      map once (filter (\<lambda>s. callback s = IterCallback k) (subscriptions_at d st)) = [False] \<and>
      \<not> stopped (sessions st k))"

text \<open>
  The states of a started session between operations: the consumer holds the value of its
  \<open>dl\<close>-th pull and has not pulled again, with \<open>m - 1\<close> ticks pending; a pull is waiting for
  the promise; the promise of a waiting pull has been settled and the body has not resumed.
\<close>

definition idle_at_yield :: "nat \<Rightarrow> nat \<Rightarrow> nat \<Rightarrow> pool \<Rightarrow> bool" where
  "idle_at_yield k m dl st =
     (pc (sessions st k) = AtYield \<and> lostTicks (sessions st k) = m \<and>
      requests (sessions st k) = 0 \<and> delivered (sessions st k) = dl \<and>
      \<not> resolve (sessions st k))"

definition suspended :: "nat \<Rightarrow> nat \<Rightarrow> pool \<Rightarrow> bool" where
  "suspended k dl st =
     (pc (sessions st k) = AwaitingPromise \<and> lostTicks (sessions st k) = 0 \<and>
      requests (sessions st k) = Suc 0 \<and> delivered (sessions st k) = dl \<and>
      resolve (sessions st k))"

definition settled :: "nat \<Rightarrow> nat \<Rightarrow> nat \<Rightarrow> pool \<Rightarrow> bool" where
  "settled k m dl st =
     (pc (sessions st k) = PromiseResolved \<and> lostTicks (sessions st k) = m \<and>
      requests (sessions st k) = Suc 0 \<and> delivered (sessions st k) = dl \<and>
      \<not> resolve (sessions st k))"

section \<open>Basic facts\<close>

subsection \<open>The bucket of \<open>src/bucket.ts\<close>\<close>

lemma invoke_calls: "calls (snd (invoke s e)) = calls e @ [s]"
  by (simp add: invoke_def split: callback.splits)

lemma invoke_console: "console (snd (invoke s e)) = console e"
  by (simp add: invoke_def split: callback.splits)

lemma invoke_timers: "timers (snd (invoke s e)) = timers e"
  by (simp add: invoke_def split: callback.splits)

lemma invoke_onStop: "onStop_calls (snd (invoke s e)) = onStop_calls e"
  by (simp add: invoke_def split: callback.splits)

lemma invoke_thrown: "fst (invoke s e) = cb_throws (callback s)"
  by (simp add: invoke_def split: callback.splits)

lemma tryStop_calls: "calls (snd (tryStop (b, e))) = calls e"
  by (simp add: tryStop_def interval_clear_def)

lemma tryStop_console: "console (snd (tryStop (b, e))) = console e"
  by (simp add: tryStop_def interval_clear_def)

lemma tryStop_subs: "subscriptions (fst (tryStop (b, e))) = subscriptions b"
  by (simp add: tryStop_def)

lemma notify_subs:
  "subscriptions (fst (notify s (b, e))) =
     (if once s then removeAll s (subscriptions b) else subscriptions b)"
  by (simp add: notify_def delete_def tryStop_subs set_delete_def Let_def split: prod.splits)

lemma notify_calls: "calls (snd (notify s (b, e))) = calls e @ [s]"
  using invoke_calls [of s e]
  by (auto simp add: notify_def delete_def tryStop_calls Let_def split: prod.splits)

lemma notify_console:
  "console (snd (notify s (b, e))) =
     console e @ (if cb_throws (callback s) then [callback s] else [])"
  using invoke_console [of s e] invoke_thrown [of s e]
  by (auto simp add: notify_def delete_def tryStop_console Let_def split: prod.splits)

lemma forEach_trace:
  "distinct xs \<Longrightarrow> set xs \<subseteq> set (subscriptions b) \<Longrightarrow>
   calls (snd (forEach xs (b, e))) = calls e @ xs \<and>
   console (snd (forEach xs (b, e))) = console e @ filter cb_throws (map callback xs)"
proof (induction xs arbitrary: b e)
  case Nil
  then show ?case by simp
next
  case (Cons s rest)
  obtain b' e' where n: "notify s (b, e) = (b', e')" by (cases "notify s (b, e)")
  have subs: "subscriptions b' = (if once s then removeAll s (subscriptions b) else subscriptions b)"
    using notify_subs [of s b e] n by simp
  have "set rest \<subseteq> set (subscriptions b')"
    using Cons.prems subs by auto
  with Cons.IH [of b' e'] Cons.prems
  have ih: "calls (snd (forEach rest (b', e'))) = calls e' @ rest \<and>
            console (snd (forEach rest (b', e'))) = console e' @ filter cb_throws (map callback rest)"
    by simp
  have c: "calls e' = calls e @ [s]"
    using notify_calls [of s b e] n by simp
  have k: "console e' = console e @ (if cb_throws (callback s) then [callback s] else [])"
    using notify_console [of s b e] n by simp
  have "s \<in> set (subscriptions b)" using Cons.prems by simp
  then show ?case using ih c k n by simp
qed


subsection \<open>The bucket with a disposed state\<close>

lemma upd_objects [simp]: "objects (upd a f st) = (objects st)(a := f (objects st a))"
  by (simp add: upd_def)

lemma upd_fields [simp]:
  "calls (upd a f st) = calls st" "console (upd a f st) = console st"
  "timers (upd a f st) = timers st" "buckets (upd a f st) = buckets st"
  "onEmpty_calls (upd a f st) = onEmpty_calls st" "next_handle (upd a f st) = next_handle st"
  "next_sid (upd a f st) = next_sid st" "next_obj (upd a f st) = next_obj st"
  "sessions (upd a f st) = sessions st" "next_session (upd a f st) = next_session st"
  by (simp_all add: upd_def)

lemma interval_clear_fields [simp]:
  "calls (interval_clear h st) = calls st" "console (interval_clear h st) = console st"
  "next_handle (interval_clear h st) = next_handle st"
  "sessions (interval_clear h st) = sessions st"
  "timers (interval_clear h st) = filter (\<lambda>t. fst t \<noteq> h) (timers st)"
  by (simp_all add: interval_clear_def)

lemma interval_clear_pool_fields [simp]:
  "objects (interval_clear h st) = objects st" "buckets (interval_clear h st) = buckets st"
  "onEmpty_calls (interval_clear h st) = onEmpty_calls st"
  "next_sid (interval_clear h st) = next_sid st" "next_obj (interval_clear h st) = next_obj st"
  "next_session (interval_clear h st) = next_session st"
  by (simp_all add: interval_clear_def)

lemma invoke_pool_fields:
  "objects (snd (invoke s st)) = objects st" "buckets (snd (invoke s st)) = buckets st"
  "onEmpty_calls (snd (invoke s st)) = onEmpty_calls st"
  "next_sid (snd (invoke s st)) = next_sid st" "next_obj (snd (invoke s st)) = next_obj st"
  "next_session (snd (invoke s st)) = next_session st"
  "next_handle (snd (invoke s st)) = next_handle st"
  by (simp_all add: invoke_def split: callback.splits)

lemma bucket_stop_live:
  "\<not> b_disposed (objects st a) \<Longrightarrow>
   bucket_stop a st =
     (None, if truthy (b_intervalId (objects st a))
            then upd a (\<lambda>b. b\<lparr>b_intervalId := None\<rparr>)
                   (interval_clear (the (b_intervalId (objects st a))) st)
            else st)"
  by (simp add: bucket_stop_def)

lemma bucket_stop_facts:
  assumes "\<not> b_disposed (objects st a)"
  shows "fst (bucket_stop a st) = None"
    and "calls (snd (bucket_stop a st)) = calls st"
    and "console (snd (bucket_stop a st)) = console st"
    and "b_subscriptions (objects (snd (bucket_stop a st)) a) = b_subscriptions (objects st a)"
    and "b_disposed (objects (snd (bucket_stop a st)) a) = b_disposed (objects st a)"
    and "b_onEmpty (objects (snd (bucket_stop a st)) a) = b_onEmpty (objects st a)"
    and "onEmpty_calls (snd (bucket_stop a st)) = onEmpty_calls st"
    and "buckets (snd (bucket_stop a st)) = buckets st"
  using assms by (simp_all add: bucket_stop_live)

lemma bucket_dispose_facts:
  assumes "\<not> b_disposed (objects st a)"
  shows "fst (bucket_dispose a st) = None"
    and "calls (snd (bucket_dispose a st)) = calls st"
    and "console (snd (bucket_dispose a st)) = console st"
    and "b_subscriptions (objects (snd (bucket_dispose a st)) a) = []"
    and "b_disposed (objects (snd (bucket_dispose a st)) a)"
    and "onEmpty_calls (snd (bucket_dispose a st)) = onEmpty_calls st"
    and "buckets (snd (bucket_dispose a st)) = buckets st"
  using assms by (simp_all add: bucket_dispose_def bucket_stop_live)

lemma onEmptyBucket_facts:
  assumes "\<not> b_disposed (objects st a)"
  shows "fst (onEmptyBucket a st) = None"
    and "calls (snd (onEmptyBucket a st)) = calls st"
    and "console (snd (onEmptyBucket a st)) = console st"
    and "b_subscriptions (objects (snd (onEmptyBucket a st)) a) = []"
  using assms bucket_dispose_facts [OF assms]
  by (auto simp add: onEmptyBucket_def split: prod.splits option.splits)

lemma bucket_remove_facts:
  assumes "\<not> b_disposed (objects st a)"
  shows "fst (bucket_remove a s st) = None"
    and "calls (snd (bucket_remove a s st)) = calls st"
    and "console (snd (bucket_remove a s st)) = console st"
    and "b_subscriptions (objects (snd (bucket_remove a s st)) a) =
           removeAll s (b_subscriptions (objects st a))"
    and "b_disposed (objects (snd (bucket_remove a s st)) a) \<longrightarrow>
           b_subscriptions (objects (snd (bucket_remove a s st)) a) = []"
proof -
  define st1 where "st1 = upd a (\<lambda>b. b\<lparr>b_subscriptions := set_delete s (b_subscriptions b)\<rparr>) st"
  have nd1: "\<not> b_disposed (objects st1 a)" using assms by (simp add: st1_def)
  have sub1: "b_subscriptions (objects st1 a) = removeAll s (b_subscriptions (objects st a))"
    by (simp add: st1_def set_delete_def)
  have c1: "calls st1 = calls st" "console st1 = console st" by (simp_all add: st1_def)
  obtain st2 where s2: "bucket_stop a st1 = (None, st2)"
    using bucket_stop_live [OF nd1] by simp
  note bs = bucket_stop_facts [OF nd1, unfolded s2, simplified]
  define st3 where "st3 = st2\<lparr>onEmpty_calls := Suc (onEmpty_calls st2)\<rparr>"
  have nd3: "\<not> b_disposed (objects st3 a)" using bs nd1 by (simp add: st3_def)
  note oe = onEmptyBucket_facts [OF nd3]
  have c3: "calls st3 = calls st2" "console st3 = console st2" by (simp_all add: st3_def)
  have unf: "bucket_remove a s st =
     (if length (b_subscriptions (objects st1 a)) = 0
      then (if b_onEmpty (objects st2 a) then onEmptyBucket a st3 else (None, st2))
      else (None, st1))"
    using assms s2 by (simp add: bucket_remove_def Let_def st1_def [symmetric] st3_def)
  show "fst (bucket_remove a s st) = None"
    unfolding unf using oe(1) by simp
  show "calls (snd (bucket_remove a s st)) = calls st"
    unfolding unf using oe(2) bs c1 c3 by simp
  show "console (snd (bucket_remove a s st)) = console st"
    unfolding unf using oe(3) bs c1 c3 by simp
  show "b_subscriptions (objects (snd (bucket_remove a s st)) a) =
           removeAll s (b_subscriptions (objects st a))"
    unfolding unf using oe(4) bs sub1 by simp
  show "b_disposed (objects (snd (bucket_remove a s st)) a) \<longrightarrow>
           b_subscriptions (objects (snd (bucket_remove a s st)) a) = []"
    unfolding unf using oe(4) bs nd1 by simp
qed


lemma notifySubscription_facts:
  assumes "\<not> b_disposed (objects st a)"
  shows "fst (notifySubscription a s st) = None"
    and "calls (snd (notifySubscription a s st)) = calls st @ [s]"
    and "console (snd (notifySubscription a s st)) =
           console st @ (if cb_throws (callback s) then [callback s] else [])"
    and "b_subscriptions (objects (snd (notifySubscription a s st)) a) =
           (if once s then removeAll s (b_subscriptions (objects st a))
            else b_subscriptions (objects st a))"
    and "b_disposed (objects (snd (notifySubscription a s st)) a) \<longrightarrow>
           b_subscriptions (objects (snd (notifySubscription a s st)) a) = []"
proof -
  obtain thrown st1 where i: "invoke s st = (thrown, st1)"
    by (cases "invoke s st")
  have th: "thrown = cb_throws (callback s)" using invoke_thrown [of s st] i by simp
  define st2 where "st2 = (if thrown then st1\<lparr>console := console st1 @ [callback s]\<rparr> else st1)"
  have o1: "objects st1 = objects st" using invoke_pool_fields(1) [of s st] i by simp
  have o2: "objects st2 = objects st" using o1 by (simp add: st2_def)
  have c2: "calls st2 = calls st @ [s]"
    using invoke_calls [of s st] i by (simp add: st2_def)
  have k2: "console st2 = console st @ (if cb_throws (callback s) then [callback s] else [])"
    using invoke_console [of s st] i th by (simp add: st2_def)
  have nd2: "\<not> b_disposed (objects st2 a)" using assms o2 by simp
  note br = bucket_remove_facts [OF nd2, of s]
  have unf: "notifySubscription a s st = (if once s then bucket_remove a s st2 else (None, st2))"
    using i by (simp add: notifySubscription_def st2_def Let_def)
  show "fst (notifySubscription a s st) = None" unfolding unf using br(1) by simp
  show "calls (snd (notifySubscription a s st)) = calls st @ [s]"
    unfolding unf using br(2) c2 by simp
  show "console (snd (notifySubscription a s st)) =
           console st @ (if cb_throws (callback s) then [callback s] else [])"
    unfolding unf using br(3) k2 by simp
  show "b_subscriptions (objects (snd (notifySubscription a s st)) a) =
           (if once s then removeAll s (b_subscriptions (objects st a))
            else b_subscriptions (objects st a))"
    unfolding unf using br(4) o2 by simp
  show "b_disposed (objects (snd (notifySubscription a s st)) a) \<longrightarrow>
           b_subscriptions (objects (snd (notifySubscription a s st)) a) = []"
    unfolding unf using br(5) nd2 by simp
qed

lemma bucket_forEach_trace:
  "distinct xs \<Longrightarrow> set xs \<subseteq> set (b_subscriptions (objects st a)) \<Longrightarrow>
   b_disposed (objects st a) \<longrightarrow> b_subscriptions (objects st a) = [] \<Longrightarrow>
   fst (bucket_forEach xs a st) = None \<and>
   calls (snd (bucket_forEach xs a st)) = calls st @ xs \<and>
   console (snd (bucket_forEach xs a st)) = console st @ filter cb_throws (map callback xs)"
proof (induction xs arbitrary: st)
  case Nil
  then show ?case by simp
next
  case (Cons s rest)
  have sin: "s \<in> set (b_subscriptions (objects st a))" using Cons.prems by simp
  then have nd: "\<not> b_disposed (objects st a)" using Cons.prems(3) by auto
  obtain st1 where n: "notifySubscription a s st = (None, st1)"
    using notifySubscription_facts(1) [OF nd, of s] by (cases "notifySubscription a s st") simp
  have c1: "calls st1 = calls st @ [s]"
    using notifySubscription_facts(2) [OF nd, of s] n by simp
  have k1: "console st1 = console st @ (if cb_throws (callback s) then [callback s] else [])"
    using notifySubscription_facts(3) [OF nd, of s] n by simp
  have s1: "b_subscriptions (objects st1 a) =
           (if once s then removeAll s (b_subscriptions (objects st a))
            else b_subscriptions (objects st a))"
    using notifySubscription_facts(4) [OF nd, of s] n by simp
  have d1: "b_disposed (objects st1 a) \<longrightarrow> b_subscriptions (objects st1 a) = []"
    using notifySubscription_facts(5) [OF nd, of s] n by simp
  have "set rest \<subseteq> set (b_subscriptions (objects st1 a))"
    using Cons.prems s1 by auto
  moreover have "distinct rest" using Cons.prems by simp
  ultimately have ih: "fst (bucket_forEach rest a st1) = None \<and>
     calls (snd (bucket_forEach rest a st1)) = calls st1 @ rest \<and>
     console (snd (bucket_forEach rest a st1)) = console st1 @ filter cb_throws (map callback rest)"
    using Cons.IH [of st1] d1 by simp
  show ?case using sin n ih c1 k1 by simp
qed


lemma add_appends:
  "s \<notin> set (subscriptions b) \<Longrightarrow> subscriptions (fst (add s (b, e))) = subscriptions b @ [s]"
  by (simp add: add_def tryStart_def set_add_def interval_set_def split: prod.splits)

lemma bucket_add_appends:
  "\<not> b_disposed (objects st a) \<Longrightarrow> s \<notin> set (b_subscriptions (objects st a)) \<Longrightarrow>
   b_subscriptions (objects (snd (bucket_add a s st)) a) = b_subscriptions (objects st a) @ [s]"
  by (simp add: bucket_add_def bucket_tryStart_def set_add_def interval_set_def upd_def
        split: prod.splits)

section \<open>Disposing a bucket\<close>

lemma dispose_bucket_facts:
  "subscriptions (fst (dispose (b, e))) = [] \<and>
   (truthy (intervalId b) \<longrightarrow>
      intervalId (fst (dispose (b, e))) = None \<and>
      the (intervalId b) \<notin> fst ` set (timers (snd (dispose (b, e)))) \<and>
      onStop_calls (snd (dispose (b, e))) = Suc (onStop_calls e)) \<and>
   (\<not> truthy (intervalId b) \<longrightarrow> snd (dispose (b, e)) = e) \<and>
   dispose (dispose (b, e)) = dispose (b, e)"
  by (auto simp add: dispose_def tryStop_def interval_clear_def)

lemma bucket_dispose_live:
  "\<not> b_disposed (objects st a) \<Longrightarrow>
   fst (bucket_dispose a st) = None \<and>
   b_subscriptions (objects (snd (bucket_dispose a st)) a) = [] \<and>
   b_disposed (objects (snd (bucket_dispose a st)) a) \<and>
   b_intervalId (objects (snd (bucket_dispose a st)) a) =
     (if truthy (b_intervalId (objects st a)) then None else b_intervalId (objects st a)) \<and>
   (truthy (b_intervalId (objects st a)) \<longrightarrow>
      the (b_intervalId (objects st a)) \<notin> fst ` set (timers (snd (bucket_dispose a st)))) \<and>
   onEmpty_calls (snd (bucket_dispose a st)) = onEmpty_calls st \<and>
   buckets (snd (bucket_dispose a st)) = buckets st"
  by (auto simp add: bucket_dispose_def bucket_stop_live)

lemma bucket_dispose_twice:
  "bucket_dispose a (snd (bucket_dispose a st)) = (None, snd (bucket_dispose a st))"
proof (cases "b_disposed (objects st a)")
  case True
  then show ?thesis by (simp add: bucket_dispose_def)
next
  case False
  then have "b_disposed (objects (snd (bucket_dispose a st)) a)"
    using bucket_dispose_live [of st a] by simp
  then show ?thesis by (simp add: bucket_dispose_def)
qed

text \<open>
  C8, amended. \<open>dispose()\<close> clears all subscriptions and cancels the timer whose handle the
  bucket holds, and a second call changes nothing. The bucket with a disposed state does so
  without calling \<open>#onEmpty\<close> and leaves the pool's map alone; the bucket of
  \<open>src/bucket.ts\<close> calls \<open>#onStop\<close> once when it held a handle, since its \<open>dispose\<close> goes
  through \<open>#tryStop\<close>, and not at all when it held none.
\<close>

theorem dispose_clears_and_cancels:
  "subscriptions (fst (dispose (b, e))) = [] \<and>
   (truthy (intervalId b) \<longrightarrow>
      intervalId (fst (dispose (b, e))) = None \<and>
      the (intervalId b) \<notin> fst ` set (timers (snd (dispose (b, e)))) \<and>
      onStop_calls (snd (dispose (b, e))) = Suc (onStop_calls e)) \<and>
   (\<not> truthy (intervalId b) \<longrightarrow> snd (dispose (b, e)) = e) \<and>
   dispose (dispose (b, e)) = dispose (b, e) \<and>
   (\<not> b_disposed (objects st a) \<longrightarrow>
      fst (bucket_dispose a st) = None \<and>
      b_subscriptions (objects (snd (bucket_dispose a st)) a) = [] \<and>
      b_disposed (objects (snd (bucket_dispose a st)) a) \<and>
      (truthy (b_intervalId (objects st a)) \<longrightarrow>
         b_intervalId (objects (snd (bucket_dispose a st)) a) = None \<and>
         the (b_intervalId (objects st a)) \<notin> fst ` set (timers (snd (bucket_dispose a st)))) \<and>
      onEmpty_calls (snd (bucket_dispose a st)) = onEmpty_calls st \<and>
      buckets (snd (bucket_dispose a st)) = buckets st) \<and>
   bucket_dispose a (snd (bucket_dispose a st)) = (None, snd (bucket_dispose a st))"
  using dispose_bucket_facts [of b e] bucket_dispose_live [of st a] bucket_dispose_twice [of a st]
  by simp

theorem dispose_clears_and_cancels_witness:
  "(let b = \<lparr>intervalId = Some 1, delay = 100, subscriptions =
               [\<lparr>sid = 0, callback = User 10 False, once = False\<rparr>]\<rparr>;
        e = new_env\<lparr>timers := [(1, 0, 100)], next_handle := 2\<rparr>;
        st = snd (snd (run 1000 (User 20 False) new_pool))
    in truthy (intervalId b) \<and>
       subscriptions (fst (dispose (b, e))) = [] \<and>
       intervalId (fst (dispose (b, e))) = None \<and>
       timers (snd (dispose (b, e))) = [] \<and>
       onStop_calls (snd (dispose (b, e))) = 1 \<and>
       \<not> truthy (intervalId (fst (dispose (b, e)))) \<and>
       snd (dispose (dispose (b, e))) = snd (dispose (b, e)) \<and>
       \<not> b_disposed (objects st 0) \<and> truthy (b_intervalId (objects st 0)) \<and>
       timers st = [(1, 0, 1000)] \<and> buckets st = [(1000, 0)] \<and>
       fst (bucket_dispose 0 st) = None \<and>
       b_subscriptions (objects (snd (bucket_dispose 0 st)) 0) = [] \<and>
       b_intervalId (objects (snd (bucket_dispose 0 st)) 0) = None \<and>
       timers (snd (bucket_dispose 0 st)) = [] \<and>
       onEmpty_calls (snd (bucket_dispose 0 st)) = 0 \<and>
       buckets (snd (bucket_dispose 0 st)) = [(1000, 0)])"
  using dispose_clears_and_cancels
    [of "\<lparr>intervalId = Some 1, delay = 100, subscriptions =
               [\<lparr>sid = 0, callback = User 10 False, once = False\<rparr>]\<rparr>"
        "new_env\<lparr>timers := [(1, 0, 100)], next_handle := 2\<rparr>"
        "snd (snd (run 1000 (User 20 False) new_pool))" 0]
    dispose_clears_and_cancels
    [of "fst (dispose (\<lparr>intervalId = Some 1, delay = 100, subscriptions =
               [\<lparr>sid = 0, callback = User 10 False, once = False\<rparr>]\<rparr>,
               new_env\<lparr>timers := [(1, 0, 100)], next_handle := 2\<rparr>))"
        "snd (dispose (\<lparr>intervalId = Some 1, delay = 100, subscriptions =
               [\<lparr>sid = 0, callback = User 10 False, once = False\<rparr>]\<rparr>,
               new_env\<lparr>timers := [(1, 0, 100)], next_handle := 2\<rparr>))"
        "snd (snd (run 1000 (User 20 False) new_pool))" 0]
  by (simp add: Let_def new_env_def new_pool_def run_def subscribe_def upsertBucket_def
        bucket_add_def bucket_tryStart_def interval_set_def upd_def set_add_def
        dispose_def tryStop_def interval_clear_def bucket_dispose_def bucket_stop_def)

text \<open>
  C8 as stated fails for the bucket of \<open>src/bucket.ts\<close>: disposing a bucket with one
  subscription and a live timer calls \<open>#onStop\<close>.
\<close>

theorem dispose_without_notification_counterexample:
  "onStop_calls (snd (add \<lparr>sid = 0, callback = User 1 False, once = False\<rparr>
                        (new_bucket 100, new_env))) = 0 \<and>
   onStop_calls (snd (dispose (add \<lparr>sid = 0, callback = User 1 False, once = False\<rparr>
                                 (new_bucket 100, new_env)))) = 1"
  by (simp add: dispose_def tryStop_def add_def tryStart_def interval_set_def interval_clear_def
        new_bucket_def new_env_def set_add_def)

lemma add_after_dispose:
  "subscriptions (fst (add s (dispose (b, e)))) = [s] \<and>
   timers (snd (add s (dispose (b, e)))) =
     timers (snd (dispose (b, e))) @ [(next_handle e, 0, delay b)] \<and>
   delete s (dispose (b, e)) = dispose (b, e)"
  by (auto simp add: dispose_def tryStop_def add_def delete_def tryStart_def interval_set_def
        interval_clear_def set_add_def set_delete_def)

text \<open>
  C9, amended. On a disposed bucket with a disposed state, \<open>add\<close>, \<open>remove\<close> and \<open>stop\<close>
  raise their error and change nothing. The bucket of \<open>src/bucket.ts\<close> has no disposed
  state: after \<open>dispose()\<close> an \<open>add\<close> stores the subscription and schedules a new timer, and
  a \<open>delete\<close> changes nothing and does not fail.
\<close>

theorem use_after_dispose:
  "(b_disposed (objects st a) \<longrightarrow>
      bucket_add a s st = (Some CannotAdd, st) \<and>
      bucket_remove a s st = (Some CannotRemove, st) \<and>
      bucket_stop a st = (Some CannotStop, st)) \<and>
   subscriptions (fst (add s (dispose (b, e)))) = [s] \<and>
   timers (snd (add s (dispose (b, e)))) =
     timers (snd (dispose (b, e))) @ [(next_handle e, 0, delay b)] \<and>
   delete s (dispose (b, e)) = dispose (b, e)"
  using add_after_dispose [of s b e]
  by (simp add: bucket_add_def bucket_remove_def bucket_stop_def)

theorem use_after_dispose_witness:
  "(let st = snd (bucket_dispose 0 (snd (snd (run 1000 (User 20 False) new_pool))));
        s = \<lparr>sid = 5, callback = User 21 False, once = False\<rparr>
    in b_disposed (objects st 0) \<and>
       bucket_add 0 s st = (Some CannotAdd, st) \<and>
       bucket_remove 0 s st = (Some CannotRemove, st) \<and>
       bucket_stop 0 st = (Some CannotStop, st))"
  using use_after_dispose
    [of "snd (bucket_dispose 0 (snd (snd (run 1000 (User 20 False) new_pool))))" 0
        "\<lparr>sid = 5, callback = User 21 False, once = False\<rparr>"]
  by (simp add: Let_def new_pool_def run_def subscribe_def upsertBucket_def
        bucket_add_def bucket_tryStart_def interval_set_def upd_def set_add_def
        interval_clear_def bucket_dispose_def bucket_stop_def)

text \<open>
  C9 as stated fails for the bucket of \<open>src/bucket.ts\<close>: after \<open>dispose()\<close> no timer is
  live, and an \<open>add\<close> schedules one.
\<close>

theorem use_after_dispose_counterexample:
  "timers (snd (dispose (add \<lparr>sid = 0, callback = User 1 False, once = False\<rparr>
                           (new_bucket 100, new_env)))) = [] \<and>
   timers (snd (add \<lparr>sid = 1, callback = User 2 False, once = False\<rparr>
                  (dispose (add \<lparr>sid = 0, callback = User 1 False, once = False\<rparr>
                              (new_bucket 100, new_env))))) = [(2, 0, 100)] \<and>
   subscriptions (fst (add \<lparr>sid = 1, callback = User 2 False, once = False\<rparr>
                  (dispose (add \<lparr>sid = 0, callback = User 1 False, once = False\<rparr>
                              (new_bucket 100, new_env))))) =
     [\<lparr>sid = 1, callback = User 2 False, once = False\<rparr>]"
  by (simp add: dispose_def tryStop_def add_def tryStart_def interval_set_def interval_clear_def
        new_bucket_def new_env_def set_add_def)

section \<open>The invariant of the pool is kept\<close>

lemma alist_update_absent:
  "map_of ps k = None \<Longrightarrow> AList.update k v ps = ps @ [(k, v)]"
  by (induction ps) (auto split: if_splits)

lemma map_of_in_set:
  "distinct (map fst ps) \<Longrightarrow> (map_of ps k = Some v) = ((k, v) \<in> set ps)"
  by (induction ps) (auto simp add: rev_image_eqI)

lemma subscribe_existing:
  "map_of (buckets st) d = Some a \<Longrightarrow> \<not> b_disposed (objects st a) \<Longrightarrow>
   truthy (b_intervalId (objects st a)) \<Longrightarrow>
   subscribe d s st =
     (None, upd a (\<lambda>b. b\<lparr>b_subscriptions := set_add s (b_subscriptions b)\<rparr>) st)"
  by (simp add: subscribe_def upsertBucket_def bucket_add_def bucket_tryStart_def)

lemma subscribe_new:
  "map_of (buckets st) d = None \<Longrightarrow>
   subscribe d s st =
     (None, st\<lparr>timers := timers st @ [(next_handle st, next_obj st, d)],
               next_handle := Suc (next_handle st),
               buckets := buckets st @ [(d, next_obj st)],
               objects := (objects st)(next_obj st :=
                 \<lparr>b_disposed = False, b_intervalId = Some (next_handle st), b_onEmpty = True,
                  b_delay = d, b_subscriptions = [s]\<rparr>),
               next_obj := Suc (next_obj st)\<rparr>)"
  by (simp add: subscribe_def upsertBucket_def bucket_add_def bucket_tryStart_def
        alist_update_absent interval_set_def upd_def set_add_def)

lemma bucket_ok_truthy: "bucket_ok st d a \<Longrightarrow> truthy (b_intervalId (objects st a))"
  by (auto simp add: bucket_ok_def split: option.splits)

lemma pool_inv_bucket:
  "pool_inv st \<Longrightarrow> map_of (buckets st) d = Some a \<Longrightarrow> bucket_ok st d a"
  by (auto simp add: pool_inv_def dest: map_of_SomeD)

lemma subscribe_existing_inv:
  assumes inv: "pool_inv st" and m: "map_of (buckets st) d = Some a" and sid: "sid s < next_sid st"
  shows "pool_inv (upd a (\<lambda>b. b\<lparr>b_subscriptions := set_add s (b_subscriptions b)\<rparr>) st)"
proof -
  have ok: "bucket_ok st d a" using pool_inv_bucket [OF inv m] .
  show ?thesis
    using inv ok sid
    unfolding pool_inv_def bucket_ok_def
    by (auto simp add: set_add_def split: option.splits)
qed

lemma subscribe_new_inv:
  assumes inv: "pool_inv st" and m: "map_of (buckets st) d = None" and sid: "sid s < next_sid st"
  shows "pool_inv (st\<lparr>timers := timers st @ [(next_handle st, next_obj st, d)],
               next_handle := Suc (next_handle st),
               buckets := buckets st @ [(d, next_obj st)],
               objects := (objects st)(next_obj st :=
                 \<lparr>b_disposed = False, b_intervalId = Some (next_handle st), b_onEmpty = True,
                  b_delay = d, b_subscriptions = [s]\<rparr>),
               next_obj := Suc (next_obj st)\<rparr>)"
proof -
  have dk: "d \<notin> fst ` set (buckets st)" using m by (simp add: map_of_eq_None_iff)
  have fresh_a: "\<forall>da \<in> set (buckets st). snd da < next_obj st"
    using inv by (auto simp add: pool_inv_def bucket_ok_def)
  have fresh_h: "\<forall>t \<in> set (timers st). fst t < next_handle st"
    using inv by (auto simp add: pool_inv_def)
  have ta: "\<forall>t \<in> set (timers st). fst (snd t) < next_obj st"
    using inv fresh_a by (fastforce simp add: pool_inv_def)
  show ?thesis
    using inv dk fresh_a fresh_h ta sid
    unfolding pool_inv_def bucket_ok_def
    by (auto split: option.splits)
qed


lemma pool_inv_next_sid:
  "pool_inv st \<Longrightarrow> pool_inv (st\<lparr>next_sid := Suc (next_sid st)\<rparr>)"
  unfolding pool_inv_def bucket_ok_def
  by (auto split: option.splits simp add: less_Suc_eq)

lemma subscribe_inv:
  assumes inv: "pool_inv st" and sid: "sid s < next_sid st"
  shows "fst (subscribe d s st) = None \<and> pool_inv (snd (subscribe d s st))"
proof (cases "map_of (buckets st) d")
  case None
  then show ?thesis using subscribe_new [OF None, of s] subscribe_new_inv [OF inv None sid] by simp
next
  case (Some a)
  have ok: "bucket_ok st d a" using pool_inv_bucket [OF inv Some] .
  then have nd: "\<not> b_disposed (objects st a)" by (simp add: bucket_ok_def)
  show ?thesis
    using subscribe_existing [OF Some nd bucket_ok_truthy [OF ok], of s]
      subscribe_existing_inv [OF inv Some sid] by simp
qed

lemma run_inv:
  "pool_inv st \<Longrightarrow> fst (run d cb st) = None \<and> pool_inv (snd (snd (run d cb st)))"
  using subscribe_inv [OF pool_inv_next_sid [of st],
      of "\<lparr>sid = next_sid st, callback = cb, once = False\<rparr>" d]
  by (simp add: run_def Let_def case_prod_unfold)

lemma once_inv:
  "pool_inv st \<Longrightarrow> fst (once_fn d cb st) = None \<and> pool_inv (snd (snd (once_fn d cb st)))"
  using subscribe_inv [OF pool_inv_next_sid [of st],
      of "\<lparr>sid = next_sid st, callback = cb, once = True\<rparr>" d]
  by (simp add: once_fn_def Let_def case_prod_unfold)

text \<open>What \<open>remove\<close> does to a live bucket of the pool.\<close>

lemma bucket_remove_rest:
  "bucket_ok st d a \<Longrightarrow> removeAll s (b_subscriptions (objects st a)) \<noteq> [] \<Longrightarrow>
   bucket_remove a s st =
     (None, upd a (\<lambda>b. b\<lparr>b_subscriptions := removeAll s (b_subscriptions b)\<rparr>) st)"
  by (simp add: bucket_remove_def bucket_ok_def set_delete_def Let_def)

lemma bucket_remove_last:
  "bucket_ok st d a \<Longrightarrow> b_intervalId (objects st a) = Some h \<Longrightarrow>
   removeAll s (b_subscriptions (objects st a)) = [] \<Longrightarrow>
   bucket_remove a s st =
     (None, st\<lparr>timers := filter (\<lambda>t. fst t \<noteq> h) (timers st),
               onEmpty_calls := Suc (onEmpty_calls st),
               objects := (objects st)(a := (objects st a)
                 \<lparr>b_intervalId := None, b_subscriptions := [], b_onEmpty := False,
                  b_disposed := True\<rparr>),
               buckets := AList.delete d (buckets st)\<rparr>)"
  by (auto simp add: bucket_remove_def bucket_ok_def set_delete_def Let_def bucket_stop_def
        onEmptyBucket_def bucket_dispose_def upd_def interval_clear_def)


lemma distinct_fst_unique:
  "distinct (map fst ps) \<Longrightarrow> (k, v) \<in> set ps \<Longrightarrow> (k, w) \<in> set ps \<Longrightarrow> v = w"
  by (induction ps) (auto simp add: rev_image_eqI)

lemma distinct_snd_unique:
  "distinct (map snd ps) \<Longrightarrow> (k, v) \<in> set ps \<Longrightarrow> (j, v) \<in> set ps \<Longrightarrow> k = j"
  by (induction ps) (auto simp add: rev_image_eqI)

lemma bucket_remove_rest_inv:
  assumes inv: "pool_inv st" and m: "(d, a) \<in> set (buckets st)"
    and ne: "removeAll s (b_subscriptions (objects st a)) \<noteq> []"
  shows "pool_inv (upd a (\<lambda>b. b\<lparr>b_subscriptions := removeAll s (b_subscriptions b)\<rparr>) st)"
  using inv m ne
  unfolding pool_inv_def bucket_ok_def
  by (auto split: option.splits simp add: distinct_removeAll)

lemma bucket_remove_last_inv:
  assumes inv: "pool_inv st" and m: "(d, a) \<in> set (buckets st)"
    and h: "b_intervalId (objects st a) = Some h"
  shows "pool_inv (st\<lparr>timers := filter (\<lambda>t. fst t \<noteq> h) (timers st),
               onEmpty_calls := Suc (onEmpty_calls st),
               objects := (objects st)(a := (objects st a)
                 \<lparr>b_intervalId := None, b_subscriptions := [], b_onEmpty := False,
                  b_disposed := True\<rparr>),
               buckets := AList.delete d (buckets st)\<rparr>)"
proof -
  have dk: "distinct (map fst (buckets st))" and dv: "distinct (map snd (buckets st))"
    and dt: "distinct (map fst (timers st))"
    using inv by (simp_all add: pool_inv_def)
  have oks: "\<And>d' a'. (d', a') \<in> set (buckets st) \<Longrightarrow> bucket_ok st d' a'"
    using inv by (auto simp add: pool_inv_def)
  have tok: "\<And>h' a' d'. (h', a', d') \<in> set (timers st) \<Longrightarrow>
      h' < next_handle st \<and> (d', a') \<in> set (buckets st) \<and> b_intervalId (objects st a') = Some h'"
    using inv by (fastforce simp add: pool_inv_def)
  have other_a: "\<And>d' a'. (d', a') \<in> set (buckets st) \<Longrightarrow> d' \<noteq> d \<Longrightarrow> a' \<noteq> a"
    using distinct_snd_unique [OF dv] m by blast
  have other_d: "\<And>d' a'. (d', a') \<in> set (buckets st) \<Longrightarrow> a' \<noteq> a \<Longrightarrow> d' \<noteq> d"
    using distinct_fst_unique [OF dk] m by blast
  have other_h: "\<And>d' a' h'. (d', a') \<in> set (buckets st) \<Longrightarrow> a' \<noteq> a \<Longrightarrow>
      b_intervalId (objects st a') = Some h' \<Longrightarrow> h' \<noteq> h"
  proof
    fix d' a' h' assume a: "(d', a') \<in> set (buckets st)" "a' \<noteq> a"
      "b_intervalId (objects st a') = Some h'" "h' = h"
    have "(h, a', d') \<in> set (timers st)" using oks [OF a(1)] a(3,4) by (simp add: bucket_ok_def)
    moreover have "(h, a, d) \<in> set (timers st)" using oks [OF m] h by (simp add: bucket_ok_def)
    ultimately have "(a', d') = (a, d)" using distinct_fst_unique [OF dt] by blast
    then show False using a(2) by simp
  qed
  have b1: "0 < next_handle st" using inv by (simp add: pool_inv_def)
  have b2: "distinct (map fst (AList.delete d (buckets st)))"
    using dk by (simp add: AList.distinct_delete)
  have b3: "distinct (map snd (AList.delete d (buckets st)))"
    using dv by (simp add: AList.delete_eq distinct_map_filter)
  have b4: "\<forall>s \<in> set (calls st). sid s < next_sid st" using inv by (simp add: pool_inv_def)
  have b5: "distinct (map fst (filter (\<lambda>t. fst t \<noteq> h) (timers st)))"
    using dt by (simp add: distinct_map_filter)
  have b6: "\<And>d' a'. (d', a') \<in> set (AList.delete d (buckets st)) \<Longrightarrow>
      (d', a') \<in> set (buckets st) \<and> d' \<noteq> d \<and> a' \<noteq> a"
    using other_a by (auto simp add: AList.delete_eq)
  define st' where "st' = st\<lparr>timers := filter (\<lambda>t. fst t \<noteq> h) (timers st),
               onEmpty_calls := Suc (onEmpty_calls st),
               objects := (objects st)(a := (objects st a)
                 \<lparr>b_intervalId := None, b_subscriptions := [], b_onEmpty := False,
                  b_disposed := True\<rparr>),
               buckets := AList.delete d (buckets st)\<rparr>"
  have f: "timers st' = filter (\<lambda>t. fst t \<noteq> h) (timers st)"
    "buckets st' = AList.delete d (buckets st)"
    "next_handle st' = next_handle st" "next_sid st' = next_sid st" "next_obj st' = next_obj st"
    "calls st' = calls st" "\<And>x. x \<noteq> a \<Longrightarrow> objects st' x = objects st x"
    by (simp_all add: st'_def)
  have c4: "\<forall>da \<in> set (buckets st'). bucket_ok st' (fst da) (snd da)"
  proof
    fix da assume "da \<in> set (buckets st')"
    then have da: "(fst da, snd da) \<in> set (AList.delete d (buckets st))" by (simp add: f)
    note g = b6 [OF da]
    have ok: "bucket_ok st (fst da) (snd da)" using oks g by blast
    obtain h' where h': "b_intervalId (objects st (snd da)) = Some h'"
      using ok by (auto simp add: bucket_ok_def split: option.splits)
    have "h' \<noteq> h" using other_h g h' by blast
    then show "bucket_ok st' (fst da) (snd da)"
      using ok g h' f by (auto simp add: bucket_ok_def)
  qed
  have c5: "\<forall>t \<in> set (timers st').
          fst t < next_handle st' \<and> (snd (snd t), fst (snd t)) \<in> set (buckets st') \<and>
          b_intervalId (objects st' (fst (snd t))) = Some (fst t)"
  proof
    fix t assume "t \<in> set (timers st')"
    then have t: "(fst t, fst (snd t), snd (snd t)) \<in> set (timers st)" "fst t \<noteq> h"
      by (simp_all add: f)
    note k = tok [OF t(1)]
    have na: "fst (snd t) \<noteq> a" using k h t(2) by auto
    have nd: "snd (snd t) \<noteq> d" using other_d k na by blast
    show "fst t < next_handle st' \<and> (snd (snd t), fst (snd t)) \<in> set (buckets st') \<and>
          b_intervalId (objects st' (fst (snd t))) = Some (fst t)"
      using k na nd f by (simp add: AList.delete_eq)
  qed
  have c1: "0 < next_handle st'" using b1 by (simp add: f)
  have c2: "distinct (map fst (buckets st'))" using b2 by (simp add: f)
  have c3: "distinct (map snd (buckets st'))" using b3 by (simp add: f)
  have c6: "distinct (map fst (timers st'))" using b5 by (simp add: f)
  have c7: "\<forall>s \<in> set (calls st'). sid s < next_sid st'" using b4 by (simp add: f)
  have "pool_inv st'"
    unfolding pool_inv_def using c1 c2 c3 c4 c5 c6 c7 by blast
  then show ?thesis by (simp add: st'_def)
qed


lemma bucket_has_handle:
  "bucket_ok st d a \<Longrightarrow> \<exists>h. b_intervalId (objects st a) = Some h \<and> h \<noteq> 0 \<and> (h, a, d) \<in> set (timers st)"
  by (auto simp add: bucket_ok_def split: option.splits)

lemma pool_inv_member:
  "pool_inv st \<Longrightarrow> (d, a) \<in> set (buckets st) \<Longrightarrow> bucket_ok st d a"
  by (auto simp add: pool_inv_def)

lemma pool_inv_map_of:
  "pool_inv st \<Longrightarrow> (map_of (buckets st) d = Some a) = ((d, a) \<in> set (buckets st))"
  using map_of_in_set [of "buckets st" d a] by (simp add: pool_inv_def)

lemma subscriptions_at_other:
  assumes inv: "pool_inv st" and m: "(d, a) \<in> set (buckets st)" and ne: "d' \<noteq> d"
    and b: "buckets st' = buckets st \<or> buckets st' = AList.delete d (buckets st)"
    and o: "\<And>x. x \<noteq> a \<Longrightarrow> objects st' x = objects st x"
  shows "subscriptions_at d' st' = subscriptions_at d' st"
proof -
  have mo: "map_of (buckets st') d' = map_of (buckets st) d'"
    using b ne by (auto simp add: AList.delete_conv')
  show ?thesis
  proof (cases "map_of (buckets st) d'")
    case None
    then show ?thesis using mo by (simp add: subscriptions_at_def)
  next
    case (Some a')
    then have "(d', a') \<in> set (buckets st)" by (rule map_of_SomeD)
    then have "a' \<noteq> a"
      using distinct_snd_unique [of "buckets st" d' a' d] inv m ne by (auto simp add: pool_inv_def)
    then show ?thesis using mo Some o by (simp add: subscriptions_at_def)
  qed
qed

lemma bucket_remove_inv:
  assumes inv: "pool_inv st" and m: "(d, a) \<in> set (buckets st)"
  shows "fst (bucket_remove a s st) = None"
    and "pool_inv (snd (bucket_remove a s st))"
    and "subscriptions_at d' (snd (bucket_remove a s st)) =
           (if d' = d then removeAll s (subscriptions_at d st) else subscriptions_at d' st)"
    and "calls (snd (bucket_remove a s st)) = calls st"
    and "console (snd (bucket_remove a s st)) = console st"
    and "sessions (snd (bucket_remove a s st)) = sessions st"
    and "next_sid (snd (bucket_remove a s st)) = next_sid st"
    and "buckets (snd (bucket_remove a s st)) =
           (if removeAll s (b_subscriptions (objects st a)) = []
            then AList.delete d (buckets st) else buckets st)"
    and "b_subscriptions (objects (snd (bucket_remove a s st)) a) =
           removeAll s (b_subscriptions (objects st a))"
    and "timers (snd (bucket_remove a s st)) =
           (if removeAll s (b_subscriptions (objects st a)) = []
            then filter (\<lambda>t. fst t \<noteq> the (b_intervalId (objects st a))) (timers st)
            else timers st)"
proof -
  have ok: "bucket_ok st d a" using pool_inv_member [OF inv m] .
  obtain h where h: "b_intervalId (objects st a) = Some h" using bucket_has_handle [OF ok] by blast
  have mo: "map_of (buckets st) d = Some a" using pool_inv_map_of [OF inv] m by simp
  have at: "subscriptions_at d st = b_subscriptions (objects st a)"
    using mo by (simp add: subscriptions_at_def)
  have dk: "distinct (map fst (buckets st))" using inv by (simp add: pool_inv_def)
  show "fst (bucket_remove a s st) = None"
    using bucket_remove_rest [OF ok, of s] bucket_remove_last [OF ok h, of s]
    by (cases "removeAll s (b_subscriptions (objects st a)) = []") simp_all
  show "pool_inv (snd (bucket_remove a s st))"
    using bucket_remove_rest [OF ok, of s] bucket_remove_last [OF ok h, of s]
      bucket_remove_rest_inv [OF inv m, of s] bucket_remove_last_inv [OF inv m h]
    by (cases "removeAll s (b_subscriptions (objects st a)) = []") simp_all
  show "calls (snd (bucket_remove a s st)) = calls st"
    using bucket_remove_rest [OF ok, of s] bucket_remove_last [OF ok h, of s]
    by (cases "removeAll s (b_subscriptions (objects st a)) = []") simp_all
  show "console (snd (bucket_remove a s st)) = console st"
    using bucket_remove_rest [OF ok, of s] bucket_remove_last [OF ok h, of s]
    by (cases "removeAll s (b_subscriptions (objects st a)) = []") simp_all
  show "sessions (snd (bucket_remove a s st)) = sessions st"
    using bucket_remove_rest [OF ok, of s] bucket_remove_last [OF ok h, of s]
    by (cases "removeAll s (b_subscriptions (objects st a)) = []") simp_all
  show "next_sid (snd (bucket_remove a s st)) = next_sid st"
    using bucket_remove_rest [OF ok, of s] bucket_remove_last [OF ok h, of s]
    by (cases "removeAll s (b_subscriptions (objects st a)) = []") simp_all
  show bk: "buckets (snd (bucket_remove a s st)) =
           (if removeAll s (b_subscriptions (objects st a)) = []
            then AList.delete d (buckets st) else buckets st)"
    using bucket_remove_rest [OF ok, of s] bucket_remove_last [OF ok h, of s]
    by (cases "removeAll s (b_subscriptions (objects st a)) = []") simp_all
  show sb: "b_subscriptions (objects (snd (bucket_remove a s st)) a) =
           removeAll s (b_subscriptions (objects st a))"
    using bucket_remove_rest [OF ok, of s] bucket_remove_last [OF ok h, of s]
    by (cases "removeAll s (b_subscriptions (objects st a)) = []") simp_all
  show "timers (snd (bucket_remove a s st)) =
           (if removeAll s (b_subscriptions (objects st a)) = []
            then filter (\<lambda>t. fst t \<noteq> the (b_intervalId (objects st a))) (timers st)
            else timers st)"
    using bucket_remove_rest [OF ok, of s] bucket_remove_last [OF ok h, of s] h
    by (cases "removeAll s (b_subscriptions (objects st a)) = []") simp_all
  have oth: "\<And>x. x \<noteq> a \<Longrightarrow> objects (snd (bucket_remove a s st)) x = objects st x"
    using bucket_remove_rest [OF ok, of s] bucket_remove_last [OF ok h, of s]
    by (cases "removeAll s (b_subscriptions (objects st a)) = []") simp_all
  show "subscriptions_at d' (snd (bucket_remove a s st)) =
           (if d' = d then removeAll s (subscriptions_at d st) else subscriptions_at d' st)"
  proof (cases "d' = d")
    case False
    have "buckets (snd (bucket_remove a s st)) = buckets st \<or>
          buckets (snd (bucket_remove a s st)) = AList.delete d (buckets st)"
      using bk by auto
    then show ?thesis
      using subscriptions_at_other [OF inv m False _ oth] False
      by simp
  next
    case True
    show ?thesis
    proof (cases "removeAll s (b_subscriptions (objects st a)) = []")
      case True
      then have "map_of (buckets (snd (bucket_remove a s st))) d = None"
        using bk by (simp add: AList.delete_conv')
      then show ?thesis using True at \<open>d' = d\<close> by (simp add: subscriptions_at_def)
    next
      case False
      then have "map_of (buckets (snd (bucket_remove a s st))) d = Some a"
        using bk mo by simp
      then show ?thesis using sb at \<open>d' = d\<close> by (simp add: subscriptions_at_def)
    qed
  qed
qed

lemma unsubscribe_fn_absent:
  "map_of (buckets st) d = None \<Longrightarrow> unsubscribe_fn d s st = (None, st)"
  by (simp add: unsubscribe_fn_def)

lemma subscriptions_at_absent:
  "map_of (buckets st) d = None \<Longrightarrow> subscriptions_at d st = []"
  by (simp add: subscriptions_at_def)

lemma unsubscribe_fn_inv:
  assumes inv: "pool_inv st"
  shows "fst (unsubscribe_fn d s st) = None"
    and "pool_inv (snd (unsubscribe_fn d s st))"
    and "subscriptions_at d' (snd (unsubscribe_fn d s st)) =
           (if d' = d then removeAll s (subscriptions_at d st) else subscriptions_at d' st)"
    and "calls (snd (unsubscribe_fn d s st)) = calls st"
    and "next_sid (snd (unsubscribe_fn d s st)) = next_sid st"
proof -
  show "fst (unsubscribe_fn d s st) = None"
  proof (cases "map_of (buckets st) d")
    case None then show ?thesis by (simp add: unsubscribe_fn_def)
  next
    case (Some a)
    then have "(d, a) \<in> set (buckets st)" by (rule map_of_SomeD)
    then show ?thesis using bucket_remove_inv(1) [OF inv] Some by (simp add: unsubscribe_fn_def)
  qed
  show "pool_inv (snd (unsubscribe_fn d s st))"
  proof (cases "map_of (buckets st) d")
    case None then show ?thesis using inv by (simp add: unsubscribe_fn_def)
  next
    case (Some a)
    then have "(d, a) \<in> set (buckets st)" by (rule map_of_SomeD)
    then show ?thesis using bucket_remove_inv(2) [OF inv] Some by (simp add: unsubscribe_fn_def)
  qed
  show "subscriptions_at d' (snd (unsubscribe_fn d s st)) =
           (if d' = d then removeAll s (subscriptions_at d st) else subscriptions_at d' st)"
  proof (cases "map_of (buckets st) d")
    case None
    then show ?thesis by (simp add: unsubscribe_fn_def subscriptions_at_absent)
  next
    case (Some a)
    then have "(d, a) \<in> set (buckets st)" by (rule map_of_SomeD)
    then show ?thesis using bucket_remove_inv(3) [OF inv] Some by (simp add: unsubscribe_fn_def)
  qed
  show "calls (snd (unsubscribe_fn d s st)) = calls st"
  proof (cases "map_of (buckets st) d")
    case None then show ?thesis by (simp add: unsubscribe_fn_def)
  next
    case (Some a)
    then have "(d, a) \<in> set (buckets st)" by (rule map_of_SomeD)
    then show ?thesis using bucket_remove_inv(4) [OF inv] Some by (simp add: unsubscribe_fn_def)
  qed
  show "next_sid (snd (unsubscribe_fn d s st)) = next_sid st"
  proof (cases "map_of (buckets st) d")
    case None then show ?thesis by (simp add: unsubscribe_fn_def)
  next
    case (Some a)
    then have "(d, a) \<in> set (buckets st)" by (rule map_of_SomeD)
    then show ?thesis using bucket_remove_inv(7) [OF inv] Some by (simp add: unsubscribe_fn_def)
  qed
qed

lemma pool_inv_invoke:
  "pool_inv st \<Longrightarrow> sid s < next_sid st \<Longrightarrow> pool_inv (snd (invoke s st))"
  unfolding pool_inv_def bucket_ok_def invoke_def
  by (auto split: callback.splits option.splits)

lemma pool_inv_console [simp]: "pool_inv (st\<lparr>console := x\<rparr>) = pool_inv st"
  by (simp add: pool_inv_def bucket_ok_def cong: option.case_cong)

lemma pool_inv_sessions [simp]: "pool_inv (st\<lparr>sessions := x\<rparr>) = pool_inv st"
  by (simp add: pool_inv_def bucket_ok_def cong: option.case_cong)

lemma pool_inv_next_session [simp]: "pool_inv (st\<lparr>next_session := x\<rparr>) = pool_inv st"
  by (simp add: pool_inv_def bucket_ok_def cong: option.case_cong)

lemma subscriptions_at_cong:
  "buckets st' = buckets st \<Longrightarrow> objects st' = objects st \<Longrightarrow>
   subscriptions_at d st' = subscriptions_at d st"
  by (simp add: subscriptions_at_def cong: option.case_cong)

lemma pool_inv_cong:
  "buckets st' = buckets st \<Longrightarrow> objects st' = objects st \<Longrightarrow> timers st' = timers st \<Longrightarrow>
   next_handle st' = next_handle st \<Longrightarrow> next_obj st' = next_obj st \<Longrightarrow>
   next_sid st' = next_sid st \<Longrightarrow> calls st' = calls st \<Longrightarrow>
   pool_inv st' = pool_inv st"
  by (simp add: pool_inv_def bucket_ok_def cong: option.case_cong)

lemma invoke_subscriptions_at: "subscriptions_at d (snd (invoke s st)) = subscriptions_at d st"
  by (rule subscriptions_at_cong) (simp_all add: invoke_pool_fields)

lemma notifySubscription_inv:
  assumes inv: "pool_inv st" and m: "(d, a) \<in> set (buckets st)"
    and sin: "s \<in> set (b_subscriptions (objects st a))"
  shows "fst (notifySubscription a s st) = None"
    and "pool_inv (snd (notifySubscription a s st))"
    and "calls (snd (notifySubscription a s st)) = calls st @ [s]"
    and "subscriptions_at d' (snd (notifySubscription a s st)) =
           (if d' = d \<and> once s then removeAll s (subscriptions_at d st)
            else subscriptions_at d' st)"
    and "buckets (snd (notifySubscription a s st)) =
           (if once s \<and> removeAll s (b_subscriptions (objects st a)) = []
            then AList.delete d (buckets st) else buckets st)"
    and "b_subscriptions (objects (snd (notifySubscription a s st)) a) =
           (if once s then removeAll s (b_subscriptions (objects st a))
            else b_subscriptions (objects st a))"
    and "next_sid (snd (notifySubscription a s st)) = next_sid st"
proof -
  obtain thrown st1 where i: "invoke s st = (thrown, st1)" by (cases "invoke s st")
  define st2 where "st2 = (if thrown then st1\<lparr>console := console st1 @ [callback s]\<rparr> else st1)"
  have sid: "sid s < next_sid st"
    using pool_inv_member [OF inv m] sin by (simp add: bucket_ok_def)
  have inv1: "pool_inv st1" using pool_inv_invoke [OF inv sid] i by simp
  have inv2: "pool_inv st2" using inv1 by (simp add: st2_def)
  have f1: "objects st1 = objects st" "buckets st1 = buckets st" "next_sid st1 = next_sid st"
    using invoke_pool_fields(1,2,4) [of s st] i by simp_all
  have f2: "objects st2 = objects st" "buckets st2 = buckets st" "next_sid st2 = next_sid st"
    using f1 by (simp_all add: st2_def)
  have c2: "calls st2 = calls st @ [s]" using invoke_calls [of s st] i by (simp add: st2_def)
  have at2: "\<And>x. subscriptions_at x st2 = subscriptions_at x st"
    by (rule subscriptions_at_cong) (simp_all add: f2)
  have m2: "(d, a) \<in> set (buckets st2)" using m f2 by simp
  note br = bucket_remove_inv [OF inv2 m2, where s = s]
  have unf: "notifySubscription a s st = (if once s then bucket_remove a s st2 else (None, st2))"
    using i by (simp add: notifySubscription_def st2_def Let_def)
  show "fst (notifySubscription a s st) = None" unfolding unf using br(1) by simp
  show "pool_inv (snd (notifySubscription a s st))" unfolding unf using br(2) inv2 by simp
  show "calls (snd (notifySubscription a s st)) = calls st @ [s]"
    unfolding unf using br(4) c2 by simp
  show "subscriptions_at d' (snd (notifySubscription a s st)) =
           (if d' = d \<and> once s then removeAll s (subscriptions_at d st)
            else subscriptions_at d' st)"
    unfolding unf using br(3) [where d' = d'] at2 by auto
  show "buckets (snd (notifySubscription a s st)) =
           (if once s \<and> removeAll s (b_subscriptions (objects st a)) = []
            then AList.delete d (buckets st) else buckets st)"
    unfolding unf using br(8) f2 by simp
  show "b_subscriptions (objects (snd (notifySubscription a s st)) a) =
           (if once s then removeAll s (b_subscriptions (objects st a))
            else b_subscriptions (objects st a))"
    unfolding unf using br(9) f2 by simp
  show "next_sid (snd (notifySubscription a s st)) = next_sid st"
    unfolding unf using br(7) f2 by simp
qed


lemma subscriptions_at_member:
  assumes "pool_inv st" and "(d, a) \<in> set (buckets st)"
  shows "subscriptions_at d st = b_subscriptions (objects st a)"
proof -
  have "map_of (buckets st) d = Some a" using pool_inv_map_of [OF assms(1)] assms(2) by simp
  then show ?thesis by (simp add: subscriptions_at_def)
qed

lemma filter_removeAll_once:
  "once s \<Longrightarrow>
   filter (\<lambda>x. \<not> (x \<in> set rest \<and> once x)) (removeAll s ys) =
   filter (\<lambda>x. \<not> (x \<in> set (s # rest) \<and> once x)) ys"
  by (induction ys) auto

lemma bucket_forEach_inv:
  "pool_inv st \<Longrightarrow> distinct xs \<Longrightarrow> set xs \<subseteq> set (b_subscriptions (objects st a)) \<Longrightarrow>
   (xs \<noteq> [] \<longrightarrow> (d, a) \<in> set (buckets st)) \<Longrightarrow>
   fst (bucket_forEach xs a st) = None \<and>
   pool_inv (snd (bucket_forEach xs a st)) \<and>
   calls (snd (bucket_forEach xs a st)) = calls st @ xs \<and>
   next_sid (snd (bucket_forEach xs a st)) = next_sid st \<and>
   (\<forall>d'. subscriptions_at d' (snd (bucket_forEach xs a st)) =
      (if d' = d then filter (\<lambda>s. \<not> (s \<in> set xs \<and> once s)) (subscriptions_at d st)
       else subscriptions_at d' st))"
proof (induction xs arbitrary: st)
  case Nil
  then show ?case by simp
next
  case (Cons s rest)
  have m: "(d, a) \<in> set (buckets st)" using Cons.prems by simp
  have sin: "s \<in> set (b_subscriptions (objects st a))" using Cons.prems by simp
  note inv = Cons.prems(1)
  obtain st1 where n: "notifySubscription a s st = (None, st1)"
    using notifySubscription_inv(1) [OF inv m sin] by (cases "notifySubscription a s st") simp
  have inv1: "pool_inv st1" using notifySubscription_inv(2) [OF inv m sin] n by simp
  have c1: "calls st1 = calls st @ [s]" using notifySubscription_inv(3) [OF inv m sin] n by simp
  have at1: "\<And>d'. subscriptions_at d' st1 =
           (if d' = d \<and> once s then removeAll s (subscriptions_at d st)
            else subscriptions_at d' st)"
    using notifySubscription_inv(4) [OF inv m sin] n by simp
  have b1: "buckets st1 =
           (if once s \<and> removeAll s (b_subscriptions (objects st a)) = []
            then AList.delete d (buckets st) else buckets st)"
    using notifySubscription_inv(5) [OF inv m sin] n by simp
  have s1: "b_subscriptions (objects st1 a) =
           (if once s then removeAll s (b_subscriptions (objects st a))
            else b_subscriptions (objects st a))"
    using notifySubscription_inv(6) [OF inv m sin] n by simp
  have n1: "next_sid st1 = next_sid st" using notifySubscription_inv(7) [OF inv m sin] n by simp
  have snr: "s \<notin> set rest" and dr: "distinct rest" using Cons.prems by simp_all
  have sub1: "set rest \<subseteq> set (b_subscriptions (objects st1 a))"
    using Cons.prems s1 snr by auto
  have m1: "rest \<noteq> [] \<longrightarrow> (d, a) \<in> set (buckets st1)"
  proof
    assume "rest \<noteq> []"
    then have "b_subscriptions (objects st1 a) \<noteq> []" using sub1 by (cases rest) auto
    then show "(d, a) \<in> set (buckets st1)" using b1 s1 m by (auto split: if_splits)
  qed
  note ih = Cons.IH [OF inv1 dr sub1 m1]
  have at: "subscriptions_at d st = b_subscriptions (objects st a)"
    using subscriptions_at_member [OF inv m] .
  have fl: "filter (\<lambda>x. \<not> (x \<in> set rest \<and> once x)) (subscriptions_at d st1) =
            filter (\<lambda>x. \<not> (x \<in> set (s # rest) \<and> once x)) (subscriptions_at d st)"
  proof (cases "once s")
    case True
    have "filter (\<lambda>x. \<not> (x \<in> set rest \<and> once x)) (removeAll s (subscriptions_at d st)) =
          filter (\<lambda>x. \<not> (x \<in> set (s # rest) \<and> once x)) (subscriptions_at d st)"
      using True by (rule filter_removeAll_once)
    then show ?thesis using at1 [of d] True by simp
  next
    case False
    have "filter (\<lambda>x. \<not> (x \<in> set rest \<and> once x)) (subscriptions_at d st) =
          filter (\<lambda>x. \<not> (x \<in> set (s # rest) \<and> once x)) (subscriptions_at d st)"
      using False by (intro filter_cong) auto
    then show ?thesis using at1 [of d] False by simp
  qed
  have unf: "bucket_forEach (s # rest) a st = bucket_forEach rest a st1"
    using sin n by simp
  show ?case
    unfolding unf using ih c1 n1 fl at1 by auto
qed

lemma fire_dead: "find (\<lambda>t. fst t = h) (timers st) = None \<Longrightarrow> fire h st = (None, st)"
  by (simp add: fire_def)

lemma fire_inv:
  assumes inv: "pool_inv st" and f: "find (\<lambda>t. fst t = h) (timers st) = Some (h', a, d)"
  shows "fst (fire h st) = None"
    and "pool_inv (snd (fire h st))"
    and "calls (snd (fire h st)) = calls st @ subscriptions_at d st"
    and "next_sid (snd (fire h st)) = next_sid st"
    and "subscriptions_at d' (snd (fire h st)) =
      (if d' = d then filter (\<lambda>s. \<not> once s) (subscriptions_at d st)
       else subscriptions_at d' st)"
proof -
  have tin: "(h', a, d) \<in> set (timers st)" using f by (auto simp add: find_Some_iff in_set_conv_nth)
  then have m: "(d, a) \<in> set (buckets st)" using inv by (fastforce simp add: pool_inv_def)
  have ok: "bucket_ok st d a" using pool_inv_member [OF inv m] .
  have at: "subscriptions_at d st = b_subscriptions (objects st a)"
    using subscriptions_at_member [OF inv m] .
  have dist: "distinct (b_subscriptions (objects st a))" using ok by (simp add: bucket_ok_def)
  have unf: "fire h st = bucket_forEach (b_subscriptions (objects st a)) a st"
    using f by (simp add: fire_def bucket_handleIntervalTick_def)
  note fe = bucket_forEach_inv [OF inv dist subset_refl, of d] 
  have fe': "fst (bucket_forEach (b_subscriptions (objects st a)) a st) = None \<and>
   pool_inv (snd (bucket_forEach (b_subscriptions (objects st a)) a st)) \<and>
   calls (snd (bucket_forEach (b_subscriptions (objects st a)) a st)) =
     calls st @ b_subscriptions (objects st a) \<and>
   next_sid (snd (bucket_forEach (b_subscriptions (objects st a)) a st)) = next_sid st \<and>
   (\<forall>d'. subscriptions_at d' (snd (bucket_forEach (b_subscriptions (objects st a)) a st)) =
      (if d' = d then filter (\<lambda>s. \<not> (s \<in> set (b_subscriptions (objects st a)) \<and> once s))
                        (subscriptions_at d st)
       else subscriptions_at d' st))"
    using fe m by simp
  show "fst (fire h st) = None" unfolding unf using fe' by simp
  show "pool_inv (snd (fire h st))" unfolding unf using fe' by simp
  show "calls (snd (fire h st)) = calls st @ subscriptions_at d st" unfolding unf using fe' at by simp
  show "next_sid (snd (fire h st)) = next_sid st" unfolding unf using fe' by simp
  have "filter (\<lambda>s. \<not> (s \<in> set (b_subscriptions (objects st a)) \<and> once s)) (subscriptions_at d st)
        = filter (\<lambda>s. \<not> once s) (subscriptions_at d st)"
    using at by (intro filter_cong) auto
  then show "subscriptions_at d' (snd (fire h st)) =
      (if d' = d then filter (\<lambda>s. \<not> once s) (subscriptions_at d st)
       else subscriptions_at d' st)"
    unfolding unf using fe' by simp
qed

lemma bucket_dispose_none: "fst (bucket_dispose a st) = None"
  by (simp add: bucket_dispose_def bucket_stop_def)

lemma bucket_dispose_explicit:
  "\<not> b_disposed (objects st a) \<Longrightarrow> b_intervalId (objects st a) = Some h \<Longrightarrow> h \<noteq> 0 \<Longrightarrow>
   bucket_dispose a st =
     (None, st\<lparr>timers := filter (\<lambda>t. fst t \<noteq> h) (timers st),
               objects := (objects st)(a := (objects st a)
                 \<lparr>b_subscriptions := [], b_intervalId := None, b_onEmpty := False,
                  b_disposed := True\<rparr>)\<rparr>)"
  by (simp add: bucket_dispose_def bucket_stop_def upd_def interval_clear_def)

lemma dispose_all_facts:
  "distinct (map snd bs) \<Longrightarrow>
   \<forall>da \<in> set bs. \<not> b_disposed (objects st (snd da)) \<and>
      (\<exists>h. b_intervalId (objects st (snd da)) = Some h \<and> h \<noteq> 0) \<Longrightarrow>
   fst (dispose_all bs st) = None \<and>
   timers (snd (dispose_all bs st)) =
     filter (\<lambda>t. fst t \<notin> set (handles_of bs st)) (timers st) \<and>
   calls (snd (dispose_all bs st)) = calls st \<and>
   next_sid (snd (dispose_all bs st)) = next_sid st \<and>
   next_handle (snd (dispose_all bs st)) = next_handle st \<and>
   buckets (snd (dispose_all bs st)) = buckets st"
proof (induction bs arbitrary: st)
  case Nil
  then show ?case by (simp add: handles_of_def)
next
  case (Cons da rest)
  obtain h where h: "b_intervalId (objects st (snd da)) = Some h" "h \<noteq> 0"
    using Cons.prems by auto
  have nd: "\<not> b_disposed (objects st (snd da))" using Cons.prems by simp
  define st1 where "st1 = st\<lparr>timers := filter (\<lambda>t. fst t \<noteq> h) (timers st),
               objects := (objects st)(snd da := (objects st (snd da))
                 \<lparr>b_subscriptions := [], b_intervalId := None, b_onEmpty := False,
                  b_disposed := True\<rparr>)\<rparr>"
  have d1: "bucket_dispose (snd da) st = (None, st1)"
    using bucket_dispose_explicit [OF nd h] by (simp add: st1_def)
  have oth: "\<And>x. x \<in> set rest \<Longrightarrow> objects st1 (snd x) = objects st (snd x)"
    using Cons.prems(1) by (auto simp add: st1_def image_iff)
  have p1: "\<forall>x \<in> set rest. \<not> b_disposed (objects st1 (snd x)) \<and>
      (\<exists>h. b_intervalId (objects st1 (snd x)) = Some h \<and> h \<noteq> 0)"
    using Cons.prems(2) oth by simp
  have dr: "distinct (map snd rest)" using Cons.prems(1) by simp
  note ih = Cons.IH [OF dr p1]
  have ho: "handles_of rest st1 = handles_of rest st"
    using oth by (simp add: handles_of_def)
  have hs: "handles_of (da # rest) st = h # handles_of rest st"
    using h by (simp add: handles_of_def)
  have f1: "timers st1 = filter (\<lambda>t. fst t \<noteq> h) (timers st)" "calls st1 = calls st"
    "next_sid st1 = next_sid st" "next_handle st1 = next_handle st" "buckets st1 = buckets st"
    by (simp_all add: st1_def)
  have unf: "dispose_all (da # rest) st = dispose_all rest st1" using d1 by simp
  have fl: "filter (\<lambda>t. fst t \<notin> set (handles_of rest st)) (filter (\<lambda>t. fst t \<noteq> h) (timers st)) =
     filter (\<lambda>t. fst t \<notin> set (h # handles_of rest st)) (timers st)"
    by (auto intro: filter_cong)
  show ?case unfolding unf hs using ih ho f1 fl by simp
qed

lemma clear_inv:
  assumes inv: "pool_inv st"
  shows "fst (clear st) = None" and "pool_inv (snd (clear st))"
    and "buckets (snd (clear st)) = []" and "timers (snd (clear st)) = []"
    and "calls (snd (clear st)) = calls st" and "next_sid (snd (clear st)) = next_sid st"
proof -
  have dv: "distinct (map snd (buckets st))" using inv by (simp add: pool_inv_def)
  have live: "\<forall>da \<in> set (buckets st). \<not> b_disposed (objects st (snd da)) \<and>
      (\<exists>h. b_intervalId (objects st (snd da)) = Some h \<and> h \<noteq> 0)"
    using inv by (auto simp add: pool_inv_def bucket_ok_def split: option.splits)
  note da = dispose_all_facts [OF dv live]
  obtain st1 where d: "dispose_all (buckets st) st = (None, st1)"
    using da by (cases "dispose_all (buckets st) st") simp
  have unf: "clear st = (None, st1\<lparr>buckets := []\<rparr>)" using d by (simp add: clear_def)
  have t1: "timers st1 = filter (\<lambda>t. fst t \<notin> set (handles_of (buckets st) st)) (timers st)"
    using da d by simp
  have "\<And>t. t \<in> set (timers st) \<Longrightarrow> fst t \<in> set (handles_of (buckets st) st)"
  proof -
    fix t assume "t \<in> set (timers st)"
    then have "(snd (snd t), fst (snd t)) \<in> set (buckets st)"
      and "b_intervalId (objects st (fst (snd t))) = Some (fst t)"
      using inv by (auto simp add: pool_inv_def)
    then show "fst t \<in> set (handles_of (buckets st) st)"
      by (force simp add: handles_of_def)
  qed
  then have t0: "timers st1 = []" using t1 by (simp add: filter_empty_conv)
  have f1: "calls st1 = calls st" "next_sid st1 = next_sid st" "next_handle st1 = next_handle st"
    using da d by simp_all
  show "fst (clear st) = None" unfolding unf by simp
  show "buckets (snd (clear st)) = []" unfolding unf by simp
  show "timers (snd (clear st)) = []" unfolding unf using t0 by simp
  show "calls (snd (clear st)) = calls st" unfolding unf using f1 by simp
  show "next_sid (snd (clear st)) = next_sid st" unfolding unf using f1 by simp
  show "pool_inv (snd (clear st))"
    unfolding unf using t0 f1 inv by (simp add: pool_inv_def)
qed


lemma pool_inv_set_session [simp]: "pool_inv (set_session k s st) = pool_inv st"
  by (simp add: set_session_def)

lemma gen_finally_inv:
  assumes "pool_inv st"
  shows "fst (gen_finally k st) = None \<and> pool_inv (snd (gen_finally k st))"
proof (cases "unsubscribe (sessions st k)")
  case None
  then show ?thesis using assms by (simp add: gen_finally_def Let_def)
next
  case (Some sub)
  have inv1: "pool_inv (set_session k ((sessions st k)\<lparr>stopped := True\<rparr>) st)"
    using assms by simp
  show ?thesis
    using unsubscribe_fn_inv(1,2) [OF inv1, of "s_delay (sessions st k)" sub] Some
    by (simp add: gen_finally_def Let_def case_prod_unfold)
qed

lemma gen_continue_inv:
  "pool_inv st \<Longrightarrow> fst (gen_continue k st) = None \<and> pool_inv (snd (gen_continue k st))"
  using gen_finally_inv [of st k] by (simp add: gen_continue_def)

lemma gen_next_inv:
  assumes "pool_inv st"
  shows "fst (gen_next k st) = None \<and> pool_inv (snd (gen_next k st))"
proof (cases "pc (sessions st k)")
  case NotStarted
  define st0 where "st0 = set_session k ((sessions st k)\<lparr>requests := Suc (requests (sessions st k)),
                                      pc := Running\<rparr>) st"
  have inv0: "pool_inv st0" using assms by (simp add: st0_def)
  obtain sub st1 where r: "run (s_delay (sessions st k)) (IterCallback k) st0 = (None, sub, st1)"
    using run_inv [OF inv0, of "s_delay (sessions st k)" "IterCallback k"]
    by (cases "run (s_delay (sessions st k)) (IterCallback k) st0") auto
  have inv1: "pool_inv st1"
    using run_inv [OF inv0, of "s_delay (sessions st k)" "IterCallback k"] r by simp
  show ?thesis
    using NotStarted r gen_continue_inv [of "set_session k (gen_outer ((sessions st1 k)\<lparr>unsubscribe := Some sub\<rparr>)) st1" k] inv1
    by (simp add: gen_next_def Let_def st0_def)
next
  case AtYield
  then show ?thesis
    using gen_continue_inv [of "set_session k (gen_inner ((sessions st k)\<lparr>requests := Suc (requests (sessions st k)), lostTicks := lostTicks (sessions st k) - 1, pc := Running\<rparr>)) st" k] assms
    by (simp add: gen_next_def Let_def)
qed (use assms in \<open>simp_all add: gen_next_def Let_def\<close>)

lemma gen_wake_inv:
  assumes "pool_inv st"
  shows "fst (gen_wake k st) = None \<and> pool_inv (snd (gen_wake k st))"
  using gen_continue_inv [of "set_session k (gen_inner ((sessions st k)\<lparr>pc := Running\<rparr>)) st" k] assms
  by (simp add: gen_wake_def Let_def)

lemma iterate_inv: "pool_inv st \<Longrightarrow> pool_inv (snd (iterate d st))"
  by (simp add: iterate_def)

lemma fire_inv_any:
  assumes "pool_inv st"
  shows "fst (fire h st) = None \<and> pool_inv (snd (fire h st))"
proof (cases "find (\<lambda>t. fst t = h) (timers st)")
  case None
  then show ?thesis using assms by (simp add: fire_dead)
next
  case (Some t)
  then have "find (\<lambda>t. fst t = h) (timers st) = Some (fst t, fst (snd t), snd (snd t))" by simp
  then show ?thesis using fire_inv(1,2) [OF assms] by blast
qed

lemma step_inv:
  assumes "pool_inv st"
  shows "fst (step x st) = None \<and> pool_inv (snd (step x st))"
proof (cases x)
  case (Run d cb)
  then show ?thesis using run_inv [OF assms, of d cb] by (simp add: case_prod_unfold)
next
  case (Once d cb)
  then show ?thesis using once_inv [OF assms, of d cb] by (simp add: case_prod_unfold)
next
  case (Unsubscribe d s)
  then show ?thesis using unsubscribe_fn_inv(1,2) [OF assms, of d s] by simp
next
  case (Fire h)
  then show ?thesis using fire_inv_any [OF assms, of h] by simp
next
  case Clear
  then show ?thesis using clear_inv(1,2) [OF assms] by simp
next
  case (Iterate d)
  then show ?thesis using iterate_inv [OF assms, of d] by simp
next
  case (Next k)
  then show ?thesis using gen_next_inv [OF assms, of k] by simp
next
  case (Wake k)
  then show ?thesis using gen_wake_inv [OF assms, of k] by simp
qed

lemma steps_inv: "pool_inv st \<Longrightarrow> pool_inv (steps xs st)"
  by (induction xs arbitrary: st) (simp_all add: step_inv)

lemma new_pool_inv: "pool_inv new_pool"
  by (simp add: pool_inv_def new_pool_def)

section \<open>One timer for each period\<close>

lemma getSubscriptionCount_length: "getSubscriptionCount d st = length (subscriptions_at d st)"
  by (simp add: getSubscriptionCount_def subscriptions_at_def split: option.splits)

lemma subscribe_effect:
  assumes inv: "pool_inv st" and sid: "sid s < next_sid st"
    and fresh: "s \<notin> set (subscriptions_at d st)"
  shows "subscriptions_at d' (snd (subscribe d s st)) =
           (if d' = d then subscriptions_at d st @ [s] else subscriptions_at d' st)"
    and "calls (snd (subscribe d s st)) = calls st"
    and "next_sid (snd (subscribe d s st)) = next_sid st"
    and "map_of (buckets st) d \<noteq> None \<longrightarrow> timers (snd (subscribe d s st)) = timers st"
    and "map_of (buckets st) d = None \<longrightarrow>
           timers (snd (subscribe d s st)) = timers st @ [(next_handle st, next_obj st, d)]"
proof -
  show "subscriptions_at d' (snd (subscribe d s st)) =
           (if d' = d then subscriptions_at d st @ [s] else subscriptions_at d' st)"
  proof (cases "map_of (buckets st) d")
    case None
    have dn: "d \<notin> fst ` set (buckets st)" using None by (simp add: map_of_eq_None_iff)
    have fr: "\<And>d' a'. map_of (buckets st) d' = Some a' \<Longrightarrow> a' \<noteq> next_obj st"
      using inv by (fastforce simp add: pool_inv_def bucket_ok_def dest: map_of_SomeD)
    show ?thesis
      using None subscribe_new [OF None, of s] dn fr
      by (auto simp add: subscriptions_at_def split: option.splits)
  next
    case (Some a)
    have m: "(d, a) \<in> set (buckets st)" using Some by (rule map_of_SomeD)
    have ok: "bucket_ok st d a" using pool_inv_member [OF inv m] .
    then have nd: "\<not> b_disposed (objects st a)" by (simp add: bucket_ok_def)
    have at: "subscriptions_at d st = b_subscriptions (objects st a)"
      using subscriptions_at_member [OF inv m] .
    have eq: "subscribe d s st =
       (None, upd a (\<lambda>b. b\<lparr>b_subscriptions := set_add s (b_subscriptions b)\<rparr>) st)"
      using subscribe_existing [OF Some nd bucket_ok_truthy [OF ok], of s] .
    show ?thesis
    proof (cases "d' = d")
      case True
      then show ?thesis using eq Some at fresh by (simp add: subscriptions_at_def set_add_def)
    next
      case False
      show ?thesis
        using subscriptions_at_other [OF inv m False, of "snd (subscribe d s st)"] eq False
        by simp
    qed
  qed
  show "calls (snd (subscribe d s st)) = calls st"
  proof (cases "map_of (buckets st) d")
    case None
    then show ?thesis using subscribe_new [OF None, of s] by simp
  next
    case (Some a)
    have ok: "bucket_ok st d a" using pool_inv_bucket [OF inv Some] .
    then have nd: "\<not> b_disposed (objects st a)" by (simp add: bucket_ok_def)
    show ?thesis using subscribe_existing [OF Some nd bucket_ok_truthy [OF ok], of s] by simp
  qed
  show "next_sid (snd (subscribe d s st)) = next_sid st"
  proof (cases "map_of (buckets st) d")
    case None
    then show ?thesis using subscribe_new [OF None, of s] by simp
  next
    case (Some a)
    have ok: "bucket_ok st d a" using pool_inv_bucket [OF inv Some] .
    then have nd: "\<not> b_disposed (objects st a)" by (simp add: bucket_ok_def)
    show ?thesis using subscribe_existing [OF Some nd bucket_ok_truthy [OF ok], of s] by simp
  qed
  show "map_of (buckets st) d \<noteq> None \<longrightarrow> timers (snd (subscribe d s st)) = timers st"
  proof
    assume "map_of (buckets st) d \<noteq> None"
    then obtain a where Some: "map_of (buckets st) d = Some a" by auto
    have ok: "bucket_ok st d a" using pool_inv_bucket [OF inv Some] .
    then have nd: "\<not> b_disposed (objects st a)" by (simp add: bucket_ok_def)
    show "timers (snd (subscribe d s st)) = timers st"
      using subscribe_existing [OF Some nd bucket_ok_truthy [OF ok], of s] by simp
  qed
  show "map_of (buckets st) d = None \<longrightarrow>
           timers (snd (subscribe d s st)) = timers st @ [(next_handle st, next_obj st, d)]"
    using subscribe_new [of st d s] by simp
qed

lemma subscriptions_at_sid:
  assumes "pool_inv st" and "s \<in> set (subscriptions_at d st)"
  shows "sid s < next_sid st"
proof -
  obtain a where a: "map_of (buckets st) d = Some a"
    using assms(2) by (cases "map_of (buckets st) d") (simp_all add: subscriptions_at_def)
  have "bucket_ok st d a" using pool_inv_bucket [OF assms(1) a] .
  then show ?thesis using assms(2) a by (simp add: subscriptions_at_def bucket_ok_def)
qed

lemma subscriptions_at_next_sid [simp]:
  "subscriptions_at d (st\<lparr>next_sid := x\<rparr>) = subscriptions_at d st"
  by (rule subscriptions_at_cong) simp_all

lemma run_effect:
  assumes inv: "pool_inv st"
  shows "fst (snd (run d cb st)) = \<lparr>sid = next_sid st, callback = cb, once = False\<rparr>"
    and "subscriptions_at d' (snd (snd (run d cb st))) =
           (if d' = d then subscriptions_at d st @ [\<lparr>sid = next_sid st, callback = cb, once = False\<rparr>]
            else subscriptions_at d' st)"
    and "calls (snd (snd (run d cb st))) = calls st"
    and "next_sid (snd (snd (run d cb st))) = Suc (next_sid st)"
    and "map_of (buckets st) d \<noteq> None \<longrightarrow> timers (snd (snd (run d cb st))) = timers st"
proof -
  define s where "s = \<lparr>sid = next_sid st, callback = cb, once = False\<rparr>"
  define st0 where "st0 = st\<lparr>next_sid := Suc (next_sid st)\<rparr>"
  have inv0: "pool_inv st0" using pool_inv_next_sid [OF inv] by (simp add: st0_def)
  have sid: "sid s < next_sid st0" by (simp add: s_def st0_def)
  have fresh: "s \<notin> set (subscriptions_at d st0)"
    using subscriptions_at_sid [OF inv, of s d] by (auto simp add: s_def st0_def)
  have unf: "run d cb st = (fst (subscribe d s st0), s, snd (subscribe d s st0))"
    by (simp add: run_def Let_def case_prod_unfold s_def st0_def)
  note se = subscribe_effect [OF inv0 sid fresh]
  show "fst (snd (run d cb st)) = \<lparr>sid = next_sid st, callback = cb, once = False\<rparr>"
    unfolding unf by (simp add: s_def)
  show "subscriptions_at d' (snd (snd (run d cb st))) =
           (if d' = d then subscriptions_at d st @ [\<lparr>sid = next_sid st, callback = cb, once = False\<rparr>]
            else subscriptions_at d' st)"
    unfolding unf using se(1) [of d'] by (simp add: s_def st0_def)
  show "calls (snd (snd (run d cb st))) = calls st"
    unfolding unf using se(2) by (simp add: st0_def)
  show "next_sid (snd (snd (run d cb st))) = Suc (next_sid st)"
    unfolding unf using se(3) by (simp add: st0_def)
  show "map_of (buckets st) d \<noteq> None \<longrightarrow> timers (snd (snd (run d cb st))) = timers st"
    unfolding unf using se(4) by (simp add: st0_def)
qed

lemma once_effect:
  assumes inv: "pool_inv st"
  shows "fst (snd (once_fn d cb st)) = \<lparr>sid = next_sid st, callback = cb, once = True\<rparr>"
    and "subscriptions_at d' (snd (snd (once_fn d cb st))) =
           (if d' = d then subscriptions_at d st @ [\<lparr>sid = next_sid st, callback = cb, once = True\<rparr>]
            else subscriptions_at d' st)"
    and "calls (snd (snd (once_fn d cb st))) = calls st"
    and "next_sid (snd (snd (once_fn d cb st))) = Suc (next_sid st)"
    and "map_of (buckets st) d \<noteq> None \<longrightarrow> timers (snd (snd (once_fn d cb st))) = timers st"
proof -
  define s where "s = \<lparr>sid = next_sid st, callback = cb, once = True\<rparr>"
  define st0 where "st0 = st\<lparr>next_sid := Suc (next_sid st)\<rparr>"
  have inv0: "pool_inv st0" using pool_inv_next_sid [OF inv] by (simp add: st0_def)
  have sid: "sid s < next_sid st0" by (simp add: s_def st0_def)
  have fresh: "s \<notin> set (subscriptions_at d st0)"
    using subscriptions_at_sid [OF inv, of s d] by (auto simp add: s_def st0_def)
  have unf: "once_fn d cb st = (fst (subscribe d s st0), s, snd (subscribe d s st0))"
    by (simp add: once_fn_def Let_def case_prod_unfold s_def st0_def)
  note se = subscribe_effect [OF inv0 sid fresh]
  show "fst (snd (once_fn d cb st)) = \<lparr>sid = next_sid st, callback = cb, once = True\<rparr>"
    unfolding unf by (simp add: s_def)
  show "subscriptions_at d' (snd (snd (once_fn d cb st))) =
           (if d' = d then subscriptions_at d st @ [\<lparr>sid = next_sid st, callback = cb, once = True\<rparr>]
            else subscriptions_at d' st)"
    unfolding unf using se(1) [of d'] by (simp add: s_def st0_def)
  show "calls (snd (snd (once_fn d cb st))) = calls st"
    unfolding unf using se(2) by (simp add: st0_def)
  show "next_sid (snd (snd (once_fn d cb st))) = Suc (next_sid st)"
    unfolding unf using se(3) by (simp add: st0_def)
  show "map_of (buckets st) d \<noteq> None \<longrightarrow> timers (snd (snd (once_fn d cb st))) = timers st"
    unfolding unf using se(4) by (simp add: st0_def)
qed

lemma pool_inv_timer:
  "pool_inv st \<Longrightarrow> t \<in> set (timers st) \<Longrightarrow>
   fst t < next_handle st \<and> (snd (snd t), fst (snd t)) \<in> set (buckets st) \<and>
   b_intervalId (objects st (fst (snd t))) = Some (fst t)"
  by (simp add: pool_inv_def)

lemma timers_for_absent:
  assumes inv: "pool_inv st" and m: "map_of (buckets st) p = None"
  shows "timers_for p st = []"
proof -
  have "\<And>t. t \<in> set (timers st) \<Longrightarrow> snd (snd t) \<noteq> p"
  proof
    fix t assume t: "t \<in> set (timers st)" "snd (snd t) = p"
    then have "(p, fst (snd t)) \<in> set (buckets st)" using pool_inv_timer [OF inv, of t] by simp
    then have "p \<in> fst ` set (buckets st)" by (simp add: rev_image_eqI)
    then show False using m by (simp add: map_of_eq_None_iff)
  qed
  then show ?thesis by (simp add: timers_for_def filter_empty_conv)
qed

lemma timers_for_present:
  assumes inv: "pool_inv st" and m: "map_of (buckets st) p = Some a"
  shows "timers_for p st = [(the (b_intervalId (objects st a)), a, p)]"
proof -
  have min: "(p, a) \<in> set (buckets st)" using m by (rule map_of_SomeD)
  obtain h where h: "b_intervalId (objects st a) = Some h" "(h, a, p) \<in> set (timers st)"
    using bucket_has_handle [OF pool_inv_member [OF inv min]] by blast
  have dk: "distinct (map fst (buckets st))" and dt: "distinct (map fst (timers st))"
    using inv by (simp_all add: pool_inv_def)
  have all: "\<And>t. t \<in> set (timers_for p st) \<Longrightarrow> t = (h, a, p)"
  proof -
    fix t assume "t \<in> set (timers_for p st)"
    then have t: "t \<in> set (timers st)" "snd (snd t) = p" by (simp_all add: timers_for_def)
    then have b: "(p, fst (snd t)) \<in> set (buckets st)"
      and i: "b_intervalId (objects st (fst (snd t))) = Some (fst t)"
      using pool_inv_timer [OF inv, of t] by simp_all
    have "fst (snd t) = a" using distinct_fst_unique [OF dk b min] .
    then have "fst t = h" using i h by simp
    then show "t = (h, a, p)" using \<open>fst (snd t) = a\<close> t(2) by (cases t) simp
  qed
  have mem: "(h, a, p) \<in> set (timers_for p st)" using h by (simp add: timers_for_def)
  have "distinct (timers st)" using dt by (simp add: distinct_map)
  then have d: "distinct (timers_for p st)" by (simp add: timers_for_def)
  have "set (timers_for p st) = {(h, a, p)}" using all mem by blast
  then have "length (timers_for p st) = 1" using distinct_card [OF d] by simp
  then obtain x where "timers_for p st = [x]" by (auto simp add: length_Suc_conv)
  then show ?thesis using mem h by simp
qed

lemma keys_are_live_periods:
  assumes inv: "pool_inv st"
  shows "fst ` set (buckets st) = {d. subscriptions_at d st \<noteq> []}"
proof (intro set_eqI iffI)
  fix d assume "d \<in> fst ` set (buckets st)"
  then obtain a where m: "(d, a) \<in> set (buckets st)" by auto
  have "b_subscriptions (objects st a) \<noteq> []"
    using pool_inv_member [OF inv m] by (simp add: bucket_ok_def)
  then show "d \<in> {d. subscriptions_at d st \<noteq> []}"
    using subscriptions_at_member [OF inv m] by simp
next
  fix d assume "d \<in> {d. subscriptions_at d st \<noteq> []}"
  then have "map_of (buckets st) d \<noteq> None"
    by (cases "map_of (buckets st) d") (simp_all add: subscriptions_at_def)
  then show "d \<in> fst ` set (buckets st)" by (simp add: map_of_eq_None_iff)
qed

lemma getActiveIntervalCount_card:
  assumes inv: "pool_inv st"
  shows "getActiveIntervalCount st = card {d. subscriptions_at d st \<noteq> []}"
proof -
  have "distinct (map fst (buckets st))" using inv by (simp add: pool_inv_def)
  then have "length (buckets st) = card (fst ` set (buckets st))"
    using distinct_card [of "map fst (buckets st)"] by simp
  then show ?thesis using keys_are_live_periods [OF inv] by (simp add: getActiveIntervalCount_def)
qed

lemma subscribe_step_effect:
  assumes inv: "pool_inv st" and s: "subscribes_at p x"
  shows "length (subscriptions_at p (snd (step x st))) = Suc (length (subscriptions_at p st))"
    and "map_of (buckets st) p \<noteq> None \<longrightarrow> timers (snd (step x st)) = timers st"
    and "map_of (buckets (snd (step x st))) p \<noteq> None"
proof -
  have a: "length (subscriptions_at p (snd (step x st))) = Suc (length (subscriptions_at p st)) \<and>
    (map_of (buckets st) p \<noteq> None \<longrightarrow> timers (snd (step x st)) = timers st)"
  proof (cases x)
    case (Run d cb)
    then show ?thesis using s run_effect(2) [OF inv, where d = p and d' = p and cb = cb]
      run_effect(5) [OF inv, where d = p and cb = cb] by (simp add: case_prod_unfold)
  next
    case (Once d cb)
    then show ?thesis using s once_effect(2) [OF inv, where d = p and d' = p and cb = cb]
      once_effect(5) [OF inv, where d = p and cb = cb] by (simp add: case_prod_unfold)
  qed (use s in simp_all)
  then show "length (subscriptions_at p (snd (step x st))) = Suc (length (subscriptions_at p st))"
    and "map_of (buckets st) p \<noteq> None \<longrightarrow> timers (snd (step x st)) = timers st" by simp_all
  have "subscriptions_at p (snd (step x st)) \<noteq> []" using a by auto
  then show "map_of (buckets (snd (step x st))) p \<noteq> None"
    by (cases "map_of (buckets (snd (step x st))) p") (simp_all add: subscriptions_at_def)
qed

lemma subscribe_steps_effect:
  "pool_inv st \<Longrightarrow> list_all (subscribes_at p) xs \<Longrightarrow>
   length (subscriptions_at p (steps xs st)) = length (subscriptions_at p st) + length xs \<and>
   (map_of (buckets st) p \<noteq> None \<longrightarrow> timers (steps xs st) = timers st) \<and>
   (xs \<noteq> [] \<longrightarrow> map_of (buckets (steps xs st)) p \<noteq> None)"
proof (induction xs arbitrary: st)
  case Nil
  then show ?case by simp
next
  case (Cons x xs)
  have s: "subscribes_at p x" and r: "list_all (subscribes_at p) xs" using Cons.prems by simp_all
  note e = subscribe_step_effect [OF Cons.prems(1) s]
  have inv1: "pool_inv (snd (step x st))" using step_inv [OF Cons.prems(1)] by simp
  note ih = Cons.IH [OF inv1 r]
  have l: "length (subscriptions_at p (steps (x # xs) st)) =
      length (subscriptions_at p st) + length (x # xs)"
    using e(1) ih by simp
  have t: "map_of (buckets st) p \<noteq> None \<longrightarrow> timers (steps (x # xs) st) = timers st"
    using e(2,3) ih by simp
  have k: "map_of (buckets (steps (x # xs) st)) p \<noteq> None"
  proof (cases "xs = []")
    case True
    then show ?thesis using e(3) by simp
  next
    case False
    then show ?thesis using ih by simp
  qed
  show ?case using l t k by blast
qed


lemma add_with_handle:
  "truthy (intervalId b) \<Longrightarrow> timers (snd (add s (b, e))) = timers e"
  by (simp add: add_def tryStart_def)

lemma add_without_handle:
  "\<not> truthy (intervalId b) \<Longrightarrow>
   timers (snd (add s (b, e))) = timers e @ [(next_handle e, 0, delay b)] \<and>
   intervalId (fst (add s (b, e))) = Some (next_handle e)"
  by (simp add: add_def tryStart_def interval_set_def)

text \<open>
  With a timer capability that hands out truthy handles, as \<open>setInterval\<close> does and as the
  invariant says: after any sequence of one or more \<open>run\<close>/\<open>once\<close> calls at a period, exactly
  one timer is live for that period, whatever the number of subscriptions; a further call at a
  period that has a bucket leaves the timers alone; \<open>getActiveIntervalCount()\<close> is the number
  of periods with at least one subscription. On a bucket of \<open>src/bucket.ts\<close>, \<open>add\<close> schedules
  one timer when the bucket holds no truthy handle and none when it holds one.
\<close>

lemma one_timer_with_truthy_handles:
  "pool_inv st \<Longrightarrow> xs \<noteq> [] \<Longrightarrow> list_all (subscribes_at p) xs \<Longrightarrow>
   length (timers_for p (steps xs st)) = 1 \<and>
   getSubscriptionCount p (steps xs st) = getSubscriptionCount p st + length xs \<and>
   getActiveIntervalCount (steps xs st) = card {d. subscriptions_at d (steps xs st) \<noteq> []} \<and>
   (map_of (buckets st) p \<noteq> None \<longrightarrow> timers (steps xs st) = timers st) \<and>
   (truthy (intervalId b) \<longrightarrow> timers (snd (add s (b, e))) = timers e) \<and>
   (\<not> truthy (intervalId b) \<longrightarrow>
      timers (snd (add s (b, e))) = timers e @ [(next_handle e, 0, delay b)] \<and>
      intervalId (fst (add s (b, e))) = Some (next_handle e))"
proof -
  assume inv: "pool_inv st" and ne: "xs \<noteq> []" and all: "list_all (subscribes_at p) xs"
  have inv': "pool_inv (steps xs st)" using steps_inv [OF inv] .
  note e = subscribe_steps_effect [OF inv all]
  obtain a where a: "map_of (buckets (steps xs st)) p = Some a" using e ne by auto
  have one: "length (timers_for p (steps xs st)) = 1"
    using timers_for_present [OF inv' a] by simp
  show ?thesis
    using one e getActiveIntervalCount_card [OF inv'] add_with_handle [of b s e]
      add_without_handle [of b s e]
    by (simp add: getSubscriptionCount_length)
qed

lemma one_timer_with_truthy_handles_example:
  "pool_inv new_pool \<and>
   list_all (subscribes_at 1000) [Run 1000 (User 1 False), Once 1000 (User 2 False),
                                   Run 1000 (User 3 True)] \<and>
   length (timers_for 1000 (steps [Run 1000 (User 1 False), Once 1000 (User 2 False),
                                    Run 1000 (User 3 True)] new_pool)) = 1 \<and>
   getSubscriptionCount 1000 (steps [Run 1000 (User 1 False), Once 1000 (User 2 False),
                                     Run 1000 (User 3 True)] new_pool) = 3 \<and>
   truthy (intervalId \<lparr>intervalId = Some 1, delay = 100, subscriptions =
               [\<lparr>sid = 0, callback = User 10 False, once = False\<rparr>]\<rparr>) \<and>
   timers (snd (add \<lparr>sid = 1, callback = User 11 False, once = False\<rparr>
                  (\<lparr>intervalId = Some 1, delay = 100, subscriptions =
                      [\<lparr>sid = 0, callback = User 10 False, once = False\<rparr>]\<rparr>,
                   new_env\<lparr>timers := [(1, 0, 100)], next_handle := 2\<rparr>))) = [(1, 0, 100)]"
  using one_timer_with_truthy_handles
      [of new_pool "[Run 1000 (User 1 False), Once 1000 (User 2 False),
                                   Run 1000 (User 3 True)]" 1000
      "\<lparr>intervalId = Some 1, delay = 100, subscriptions =
               [\<lparr>sid = 0, callback = User 10 False, once = False\<rparr>]\<rparr>"
      "\<lparr>sid = 1, callback = User 11 False, once = False\<rparr>"
      "new_env\<lparr>timers := [(1, 0, 100)], next_handle := 2\<rparr>"]
    new_pool_inv
  by (simp add: getSubscriptionCount_def new_pool_def new_env_def)

text \<open>The definitions a concrete pool state is evaluated with.\<close>

lemmas pool_eval =
  new_pool_def new_env_def run_def once_fn_def subscribe_def upsertBucket_def bucket_add_def
  bucket_tryStart_def interval_set_def interval_clear_def upd_def set_add_def set_delete_def
  unsubscribe_fn_def bucket_remove_def bucket_stop_def bucket_dispose_def onEmptyBucket_def
  pool_inv_def bucket_ok_def subscriptions_at_def timers_for_def getActiveIntervalCount_def
  getSubscriptionCount_def getStats_def Let_def

text \<open>The definitions the earlier pool is evaluated with.\<close>

lemmas old_eval =
  empty_old_pool_def addsubscription_def removeSubscription_def run_old_def once_old_def
  notify_old_def fire_old_def getSubscriptionCount_old_def

text \<open>
  C1. One timer for each period fails for a timer capability that hands out a falsy handle.
  \<open>#tryStart\<close> tests the stored handle with \<open>if (this.#intervalId) return\<close>, so a bucket
  that holds the handle 0 counts as having no timer. In a pool whose capability gives 0 as
  its first handle, the second \<open>run\<close> at the period 50 schedules a second timer for that
  period: two timers are live for one period with two subscriptions, while
  \<open>getActiveIntervalCount()\<close> is 1. From a capability whose first handle is 1 the same two
  calls leave one timer. The bucket of \<open>src/bucket.ts\<close> has the same test: its first \<open>add\<close>
  schedules the timer 0 and its second \<open>add\<close> schedules the timer 1. The earlier \<open>index.ts\<close>
  tests the bucket and not the handle, and schedules one timer from the handle 0 too.
\<close>

theorem falsy_handle_second_timer:
  "timers (steps [Run 50 (User 1 False), Run 50 (User 2 False)] (new_pool\<lparr>next_handle := 0\<rparr>)) =
     [(0, 0, 50), (1, 0, 50)] \<and>
   length (timers_for 50 (steps [Run 50 (User 1 False), Run 50 (User 2 False)]
                            (new_pool\<lparr>next_handle := 0\<rparr>))) = 2 \<and>
   getSubscriptionCount 50 (steps [Run 50 (User 1 False), Run 50 (User 2 False)]
                              (new_pool\<lparr>next_handle := 0\<rparr>)) = 2 \<and>
   getActiveIntervalCount (steps [Run 50 (User 1 False), Run 50 (User 2 False)]
                             (new_pool\<lparr>next_handle := 0\<rparr>)) = 1 \<and>
   timers (steps [Run 50 (User 1 False), Run 50 (User 2 False)] new_pool) = [(1, 0, 50)] \<and>
   timers (snd (add \<lparr>sid = 0, callback = User 1 False, once = False\<rparr>
                  (new_bucket 100, new_env\<lparr>next_handle := 0\<rparr>))) = [(0, 0, 100)] \<and>
   timers (snd (add \<lparr>sid = 1, callback = User 2 False, once = False\<rparr>
                  (add \<lparr>sid = 0, callback = User 1 False, once = False\<rparr>
                     (new_bucket 100, new_env\<lparr>next_handle := 0\<rparr>)))) =
     [(0, 0, 100), (1, 0, 100)] \<and>
   timers (snd (run_old 50 (User 2 False)
                  (snd (run_old 50 (User 1 False) (empty_old_pool\<lparr>next_handle := 0\<rparr>))))) =
     [(0, 0, 50)]"
  by (simp add: pool_eval old_eval add_def tryStart_def new_bucket_def)

section \<open>Release of an emptied period\<close>

lemma length_alist_delete:
  "distinct (map fst xs) \<Longrightarrow> (p, a) \<in> set xs \<Longrightarrow>
   length (AList.delete p xs) = length xs - 1"
proof (induction xs)
  case Nil
  then show ?case by simp
next
  case (Cons x xs)
  show ?case
  proof (cases "fst x = p")
    case True
    then have "p \<notin> fst ` set xs" using Cons.prems(1) by auto
    then have "AList.delete p xs = xs" by simp
    then show ?thesis using True by (cases x) simp
  next
    case False
    then have "(p, a) \<in> set xs" using Cons.prems(2) by auto
    then have "length (AList.delete p xs) = length xs - 1" and "xs \<noteq> []"
      using Cons.IH Cons.prems(1) by auto
    then show ?thesis using False by (cases x) (auto simp add: Suc_diff_le Suc_leI)
  qed
qed

lemma getStats_keys: "fst ` set (getStats st) = fst ` set (buckets st)"
  by (simp add: getStats_def image_image)

lemma subscriptions_at_key:
  "subscriptions_at d st \<noteq> [] \<Longrightarrow> \<exists>a. map_of (buckets st) d = Some a"
  by (cases "map_of (buckets st) d") (simp_all add: subscriptions_at_def)

lemma remove_last_effect:
  assumes inv: "pool_inv st" and one: "subscriptions_at p st = [s]"
  shows "fst (unsubscribe_fn p s st) = None"
    and "timers (snd (unsubscribe_fn p s st)) = filter (\<lambda>t. snd (snd t) \<noteq> p) (timers st)"
    and "buckets (snd (unsubscribe_fn p s st)) = AList.delete p (buckets st)"
    and "getActiveIntervalCount (snd (unsubscribe_fn p s st)) = getActiveIntervalCount st - 1"
    and "\<forall>a. map_of (buckets st) p = Some a \<longrightarrow> bucket_remove a s st = unsubscribe_fn p s st"
proof -
  obtain a where a: "map_of (buckets st) p = Some a"
    using subscriptions_at_key [of p st] one by auto
  have m: "(p, a) \<in> set (buckets st)" using a by (rule map_of_SomeD)
  have subs: "b_subscriptions (objects st a) = [s]"
    using subscriptions_at_member [OF inv m] one by simp
  have unf: "unsubscribe_fn p s st = bucket_remove a s st" using a by (simp add: unsubscribe_fn_def)
  have dk: "distinct (map fst (buckets st))" and dt: "distinct (map fst (timers st))"
    using inv by (simp_all add: pool_inv_def)
  obtain h where h: "b_intervalId (objects st a) = Some h" "(h, a, p) \<in> set (timers st)"
    using bucket_has_handle [OF pool_inv_member [OF inv m]] by blast
  show "fst (unsubscribe_fn p s st) = None" using unsubscribe_fn_inv(1) [OF inv] .
  show bk: "buckets (snd (unsubscribe_fn p s st)) = AList.delete p (buckets st)"
    unfolding unf using bucket_remove_inv(8) [OF inv m, where s = s] subs by simp
  show "getActiveIntervalCount (snd (unsubscribe_fn p s st)) = getActiveIntervalCount st - 1"
    using bk length_alist_delete [OF dk m] by (simp add: getActiveIntervalCount_def)
  show "\<forall>a. map_of (buckets st) p = Some a \<longrightarrow> bucket_remove a s st = unsubscribe_fn p s st"
    by (simp add: unsubscribe_fn_def)
  have t1: "timers (snd (unsubscribe_fn p s st)) = filter (\<lambda>t. fst t \<noteq> h) (timers st)"
    unfolding unf using bucket_remove_inv(10) [OF inv m, where s = s] subs h by simp
  have "\<And>t. t \<in> set (timers st) \<Longrightarrow> (fst t \<noteq> h) = (snd (snd t) \<noteq> p)"
  proof -
    fix t assume t: "t \<in> set (timers st)"
    show "(fst t \<noteq> h) = (snd (snd t) \<noteq> p)"
    proof (cases "fst t = h")
      case True
      have "(h, snd t) \<in> set (timers st)" using t True by (cases t) auto
      then have "snd t = (a, p)" using distinct_fst_unique [OF dt _ h(2)] by simp
      then show ?thesis using True by simp
    next
      case False
      have "snd (snd t) \<noteq> p"
      proof
        assume "snd (snd t) = p"
        then have "t \<in> set (timers_for p st)" using t by (simp add: timers_for_def)
        then have "t = (h, a, p)" using timers_for_present [OF inv a] h by simp
        then show False using False by simp
      qed
      then show ?thesis using False by simp
    qed
  qed
  then have "filter (\<lambda>t. fst t \<noteq> h) (timers st) = filter (\<lambda>t. snd (snd t) \<noteq> p) (timers st)"
    by (intro filter_cong) simp_all
  then show "timers (snd (unsubscribe_fn p s st)) = filter (\<lambda>t. snd (snd t) \<noteq> p) (timers st)"
    using t1 by simp
qed

text \<open>
  With a timer capability that hands out truthy handles: removing the last subscription of a
  period, through the function \<open>run\<close>/\<open>once\<close> returned or through \<open>remove\<close> of the bucket,
  cancels the timer of that period and no other, and removes the key from the map in the
  same call: the period is then absent from \<open>getStats()\<close>, and \<open>getActiveIntervalCount()\<close> is
  one less. In every state the pool can reach, a key of the map has a bucket with at least
  one subscription.
\<close>

lemma release_with_truthy_handles:
  "pool_inv st \<Longrightarrow> subscriptions_at p st = [s] \<Longrightarrow>
   fst (unsubscribe_fn p s st) = None \<and>
   timers (snd (unsubscribe_fn p s st)) = filter (\<lambda>t. snd (snd t) \<noteq> p) (timers st) \<and>
   timers_for p (snd (unsubscribe_fn p s st)) = [] \<and>
   p \<notin> fst ` set (buckets (snd (unsubscribe_fn p s st))) \<and>
   p \<notin> fst ` set (getStats (snd (unsubscribe_fn p s st))) \<and>
   getActiveIntervalCount (snd (unsubscribe_fn p s st)) = getActiveIntervalCount st - 1 \<and>
   (\<forall>a. map_of (buckets st) p = Some a \<longrightarrow> bucket_remove a s st = unsubscribe_fn p s st) \<and>
   (\<forall>xs d. d \<in> fst ` set (buckets (steps xs st)) \<longrightarrow> subscriptions_at d (steps xs st) \<noteq> [])"
proof -
  assume inv: "pool_inv st" and one: "subscriptions_at p st = [s]"
  note e = remove_last_effect [OF inv one]
  have k: "p \<notin> fst ` set (buckets (snd (unsubscribe_fn p s st)))"
    using e(3) by (auto simp add: AList.delete_eq)
  have r: "\<forall>xs d. d \<in> fst ` set (buckets (steps xs st)) \<longrightarrow> subscriptions_at d (steps xs st) \<noteq> []"
    using keys_are_live_periods [OF steps_inv [OF inv]] by blast
  have tf: "timers_for p (snd (unsubscribe_fn p s st)) = []"
    using e(2) by (simp add: timers_for_def filter_empty_conv)
  show ?thesis using e k r tf getStats_keys by simp
qed

lemma release_with_truthy_handles_example:
  "pool_inv (snd (snd (run 1000 (User 1 False) new_pool))) \<and>
   subscriptions_at 1000 (snd (snd (run 1000 (User 1 False) new_pool))) =
     [\<lparr>sid = 0, callback = User 1 False, once = False\<rparr>] \<and>
   timers (snd (snd (run 1000 (User 1 False) new_pool))) = [(1, 0, 1000)] \<and>
   getActiveIntervalCount (snd (snd (run 1000 (User 1 False) new_pool))) = 1 \<and>
   timers (snd (unsubscribe_fn 1000 \<lparr>sid = 0, callback = User 1 False, once = False\<rparr>
                  (snd (snd (run 1000 (User 1 False) new_pool))))) = [] \<and>
   getStats (snd (unsubscribe_fn 1000 \<lparr>sid = 0, callback = User 1 False, once = False\<rparr>
                  (snd (snd (run 1000 (User 1 False) new_pool))))) = [] \<and>
   getActiveIntervalCount
     (snd (unsubscribe_fn 1000 \<lparr>sid = 0, callback = User 1 False, once = False\<rparr>
             (snd (snd (run 1000 (User 1 False) new_pool))))) = 0"
  using release_with_truthy_handles [of "snd (snd (run 1000 (User 1 False) new_pool))" 1000
      "\<lparr>sid = 0, callback = User 1 False, once = False\<rparr>"]
  by (simp add: pool_eval)

text \<open>
  C2. The release of an emptied period fails for a timer capability that hands out a falsy
  handle. \<open>stop()\<close> cancels only \<open>if (this.#intervalId)\<close>, so a bucket that holds the handle 0
  cancels nothing. In a pool whose capability gives 0 as its first handle, the unsubscribe
  function of the only subscription at the period 50 returns without error and removes the
  key, \<open>getStats()\<close> is empty and \<open>getActiveIntervalCount()\<close> is 0, and the timer of the period
  stays live in the capability. From a capability whose first handle is 1 the same calls
  leave no timer. The bucket of \<open>src/bucket.ts\<close> has the same test in \<open>#tryStop\<close>: deleting
  its only subscription leaves the timer 0 live and does not call \<open>#onStop\<close>. The earlier
  \<open>index.ts\<close> cancels the handle of an emptied bucket without a test, the handle 0 too.
\<close>

theorem falsy_handle_timer_leak:
  "fst (step (Unsubscribe 50 \<lparr>sid = 0, callback = User 1 False, once = False\<rparr>)
          (steps [Run 50 (User 1 False)] (new_pool\<lparr>next_handle := 0\<rparr>))) = None \<and>
   timers (steps [Run 50 (User 1 False),
                  Unsubscribe 50 \<lparr>sid = 0, callback = User 1 False, once = False\<rparr>]
             (new_pool\<lparr>next_handle := 0\<rparr>)) = [(0, 0, 50)] \<and>
   getStats (steps [Run 50 (User 1 False),
                    Unsubscribe 50 \<lparr>sid = 0, callback = User 1 False, once = False\<rparr>]
               (new_pool\<lparr>next_handle := 0\<rparr>)) = [] \<and>
   getActiveIntervalCount
     (steps [Run 50 (User 1 False),
             Unsubscribe 50 \<lparr>sid = 0, callback = User 1 False, once = False\<rparr>]
        (new_pool\<lparr>next_handle := 0\<rparr>)) = 0 \<and>
   timers (steps [Run 50 (User 1 False),
                  Unsubscribe 50 \<lparr>sid = 0, callback = User 1 False, once = False\<rparr>]
             new_pool) = [] \<and>
   timers (snd (delete \<lparr>sid = 0, callback = User 1 False, once = False\<rparr>
                  (add \<lparr>sid = 0, callback = User 1 False, once = False\<rparr>
                     (new_bucket 100, new_env\<lparr>next_handle := 0\<rparr>)))) = [(0, 0, 100)] \<and>
   onStop_calls (snd (delete \<lparr>sid = 0, callback = User 1 False, once = False\<rparr>
                        (add \<lparr>sid = 0, callback = User 1 False, once = False\<rparr>
                           (new_bucket 100, new_env\<lparr>next_handle := 0\<rparr>)))) = 0 \<and>
   timers (removeSubscription 50 \<lparr>sid = 0, callback = User 1 False, once = False\<rparr>
             (snd (run_old 50 (User 1 False) (empty_old_pool\<lparr>next_handle := 0\<rparr>)))) = []"
  by (simp add: pool_eval old_eval add_def delete_def tryStart_def tryStop_def new_bucket_def)

section \<open>Unsubscribing again\<close>

lemma subscriptions_at_set_session [simp]:
  "subscriptions_at d (set_session k s st) = subscriptions_at d st"
  by (rule subscriptions_at_cong) (simp_all add: set_session_def)

lemma set_session_fields [simp]:
  "calls (set_session k s st) = calls st" "next_sid (set_session k s st) = next_sid st"
  "sessions (set_session k s st) k = s"
  by (simp_all add: set_session_def)

lemma gen_finally_effect:
  assumes inv: "pool_inv st"
  shows "set (subscriptions_at d (snd (gen_finally k st))) \<subseteq> set (subscriptions_at d st) \<and>
         next_sid (snd (gen_finally k st)) = next_sid st \<and>
         calls (snd (gen_finally k st)) = calls st"
proof (cases "unsubscribe (sessions st k)")
  case None
  then show ?thesis by (simp add: gen_finally_def Let_def)
next
  case (Some sub)
  have inv1: "pool_inv (set_session k ((sessions st k)\<lparr>stopped := True\<rparr>) st)"
    using inv by simp
  note u = unsubscribe_fn_inv [OF inv1, where d = "s_delay (sessions st k)" and s = sub]
  show ?thesis
    using u(3) [of d] u(4) u(5) Some
    by (auto simp add: gen_finally_def Let_def case_prod_unfold)
qed

lemma gen_continue_effect:
  assumes inv: "pool_inv st"
  shows "set (subscriptions_at d (snd (gen_continue k st))) \<subseteq> set (subscriptions_at d st) \<and>
         next_sid (snd (gen_continue k st)) = next_sid st \<and>
         calls (snd (gen_continue k st)) = calls st"
  using gen_finally_effect [OF inv, of d k] by (simp add: gen_continue_def)

lemma gen_wake_effect:
  assumes inv: "pool_inv st"
  shows "set (subscriptions_at d (snd (gen_wake k st))) \<subseteq> set (subscriptions_at d st) \<and>
         next_sid (snd (gen_wake k st)) = next_sid st \<and>
         calls (snd (gen_wake k st)) = calls st"
proof (cases "pc (sessions st k) = PromiseResolved")
  case True
  define st1 where "st1 = set_session k (gen_inner ((sessions st k)\<lparr>pc := Running\<rparr>)) st"
  have inv1: "pool_inv st1" using inv by (simp add: st1_def)
  show ?thesis
    using gen_continue_effect [OF inv1, of d k] True
    by (simp add: gen_wake_def Let_def st1_def)
next
  case False
  then show ?thesis by (simp add: gen_wake_def Let_def)
qed

lemma gen_next_effect:
  assumes inv: "pool_inv st"
  shows "(\<forall>s \<in> set (subscriptions_at d (snd (gen_next k st))).
            s \<in> set (subscriptions_at d st) \<or> next_sid st \<le> sid s) \<and>
         next_sid st \<le> next_sid (snd (gen_next k st)) \<and>
         calls (snd (gen_next k st)) = calls st"
proof (cases "pc (sessions st k)")
  case NotStarted
  define st0 where "st0 = set_session k ((sessions st k)\<lparr>requests := Suc (requests (sessions st k)),
                                      pc := Running\<rparr>) st"
  have inv0: "pool_inv st0" using inv by (simp add: st0_def)
  define dl where "dl = s_delay (sessions st k)"
  obtain sub st1 where r: "run dl (IterCallback k) st0 = (None, sub, st1)"
    using run_inv [OF inv0, of dl "IterCallback k"]
    by (cases "run dl (IterCallback k) st0") auto
  have inv1: "pool_inv st1" using run_inv [OF inv0, of dl "IterCallback k"] r by simp
  have e2: "subscriptions_at d st1 =
      (if d = dl then subscriptions_at dl st0 @ [\<lparr>sid = next_sid st0, callback = IterCallback k, once = False\<rparr>]
       else subscriptions_at d st0)"
    using run_effect(2) [OF inv0, where d = dl and d' = d and cb = "IterCallback k"] r by simp
  have e3: "calls st1 = calls st0" using run_effect(3) [OF inv0, where d = dl and cb = "IterCallback k"] r by simp
  have e4: "next_sid st1 = Suc (next_sid st0)"
    using run_effect(4) [OF inv0, where d = dl and cb = "IterCallback k"] r by simp
  define st2 where "st2 = set_session k (gen_outer ((sessions st1 k)\<lparr>unsubscribe := Some sub\<rparr>)) st1"
  have inv2: "pool_inv st2" using inv1 by (simp add: st2_def)
  have unf: "gen_next k st = gen_continue k st2"
    using NotStarted r by (simp add: gen_next_def Let_def st0_def st2_def dl_def)
  note c = gen_continue_effect [OF inv2, of d k]
  have s0: "subscriptions_at d st0 = subscriptions_at d st" "subscriptions_at dl st0 = subscriptions_at dl st"
    "next_sid st0 = next_sid st" "calls st0 = calls st"
    by (simp_all add: st0_def)
  have s2: "subscriptions_at d st2 = subscriptions_at d st1" "next_sid st2 = next_sid st1"
    "calls st2 = calls st1" by (simp_all add: st2_def)
  show ?thesis
    unfolding unf using c e2 e3 e4 s0 s2 by (auto split: if_splits)
next
  case AtYield
  define st1 where "st1 = set_session k
               (gen_inner ((sessions st k)\<lparr>requests := Suc (requests (sessions st k)),
                             lostTicks := lostTicks (sessions st k) - 1, pc := Running\<rparr>)) st"
  have inv1: "pool_inv st1" using inv by (simp add: st1_def)
  have unf: "gen_next k st = gen_continue k st1"
    using AtYield by (simp add: gen_next_def Let_def st1_def)
  show ?thesis unfolding unf using gen_continue_effect [OF inv1, of d k] by (auto simp add: st1_def)
qed (simp_all add: gen_next_def Let_def)


lemma clear_subscriptions_at:
  assumes "pool_inv st"
  shows "subscriptions_at d (snd (clear st)) = []"
  using clear_inv(3) [OF assms] by (simp add: subscriptions_at_def)

lemma iterate_effect:
  "subscriptions_at d (snd (iterate p st)) = subscriptions_at d st \<and>
   next_sid (snd (iterate p st)) = next_sid st \<and> calls (snd (iterate p st)) = calls st"
proof -
  have "subscriptions_at d (snd (iterate p st)) = subscriptions_at d st"
    by (rule subscriptions_at_cong) (simp_all add: iterate_def set_session_def)
  then show ?thesis by (simp add: iterate_def)
qed

lemma step_effect:
  assumes inv: "pool_inv st"
  shows "(\<forall>d. \<forall>s \<in> set (subscriptions_at d (snd (step x st))).
            s \<in> set (subscriptions_at d st) \<or> next_sid st \<le> sid s) \<and>
         next_sid st \<le> next_sid (snd (step x st)) \<and>
         (\<exists>ys. calls (snd (step x st)) = calls st @ ys \<and>
               (\<forall>s \<in> set ys. \<exists>d. s \<in> set (subscriptions_at d st)))"
proof (cases x)
  case (Run p cb)
  have "\<And>d. \<forall>s \<in> set (subscriptions_at d (snd (snd (run p cb st)))).
            s \<in> set (subscriptions_at d st) \<or> next_sid st \<le> sid s"
    using run_effect(2) [OF inv, where d = p and cb = cb] by (auto split: if_splits)
  then show ?thesis
    using Run run_effect(3) [OF inv, where d = p and cb = cb]
      run_effect(4) [OF inv, where d = p and cb = cb]
    by (simp add: case_prod_unfold)
next
  case (Once p cb)
  have "\<And>d. \<forall>s \<in> set (subscriptions_at d (snd (snd (once_fn p cb st)))).
            s \<in> set (subscriptions_at d st) \<or> next_sid st \<le> sid s"
    using once_effect(2) [OF inv, where d = p and cb = cb] by (auto split: if_splits)
  then show ?thesis
    using Once once_effect(3) [OF inv, where d = p and cb = cb]
      once_effect(4) [OF inv, where d = p and cb = cb]
    by (simp add: case_prod_unfold)
next
  case (Unsubscribe p s)
  have "\<And>d. \<forall>s' \<in> set (subscriptions_at d (snd (unsubscribe_fn p s st))).
            s' \<in> set (subscriptions_at d st) \<or> next_sid st \<le> sid s'"
    using unsubscribe_fn_inv(3) [OF inv, where d = p and s = s] by (auto split: if_splits)
  then show ?thesis
    using Unsubscribe unsubscribe_fn_inv(4) [OF inv, where d = p and s = s]
      unsubscribe_fn_inv(5) [OF inv, where d = p and s = s]
    by simp
next
  case (Fire h)
  show ?thesis
  proof (cases "find (\<lambda>t. fst t = h) (timers st)")
    case None
    then show ?thesis using Fire by (simp add: fire_dead)
  next
    case (Some t)
    then have f: "find (\<lambda>t. fst t = h) (timers st) = Some (fst t, fst (snd t), snd (snd t))"
      by simp
    note fi = fire_inv [OF inv f]
    have a: "\<And>d. \<forall>s \<in> set (subscriptions_at d (snd (fire h st))).
            s \<in> set (subscriptions_at d st) \<or> next_sid st \<le> sid s"
      using fi(5) by (auto split: if_splits)
    have b: "\<exists>ys. calls (snd (fire h st)) = calls st @ ys \<and>
               (\<forall>s \<in> set ys. \<exists>d. s \<in> set (subscriptions_at d st))"
      using fi(3) by blast
    show ?thesis using Fire a b fi(4) by simp
  qed
next
  case Clear
  then show ?thesis
    using clear_subscriptions_at [OF inv] clear_inv(5,6) [OF inv] by simp
next
  case (Iterate p)
  then show ?thesis using iterate_effect [of _ p st] by simp
next
  case (Next k)
  then show ?thesis using gen_next_effect [OF inv, of _ k] by simp
next
  case (Wake k)
  then show ?thesis using gen_wake_effect [OF inv, of _ k] by auto
qed

lemma unregistered_stays:
  "pool_inv st \<Longrightarrow> sid s < next_sid st \<Longrightarrow> \<forall>d. s \<notin> set (subscriptions_at d st) \<Longrightarrow>
   (\<forall>d. s \<notin> set (subscriptions_at d (steps xs st))) \<and>
   count_list (calls (steps xs st)) s = count_list (calls st) s"
proof (induction xs arbitrary: st)
  case Nil
  then show ?case by simp
next
  case (Cons x xs)
  note e = step_effect [OF Cons.prems(1), of x]
  have inv1: "pool_inv (snd (step x st))" using step_inv [OF Cons.prems(1)] by simp
  have sid1: "sid s < next_sid (snd (step x st))" using e Cons.prems(2) by simp
  have un1: "\<forall>d. s \<notin> set (subscriptions_at d (snd (step x st)))"
    using e Cons.prems(2,3) by (meson leD)
  obtain ys where ys: "calls (snd (step x st)) = calls st @ ys"
    "\<forall>s \<in> set ys. \<exists>d. s \<in> set (subscriptions_at d st)" using e by blast
  have "s \<notin> set ys" using ys(2) Cons.prems(3) by blast
  then have c1: "count_list (calls (snd (step x st))) s = count_list (calls st) s"
    using ys(1) by simp
  show ?case using Cons.IH [OF inv1 sid1 un1] c1 by simp
qed


lemma unsubscribe_absent:
  assumes inv: "pool_inv st" and ab: "s \<notin> set (subscriptions_at d st)"
  shows "unsubscribe_fn d s st = (None, st)"
proof (cases "map_of (buckets st) d")
  case None
  then show ?thesis by (simp add: unsubscribe_fn_def)
next
  case (Some a)
  have m: "(d, a) \<in> set (buckets st)" using Some by (rule map_of_SomeD)
  have ok: "bucket_ok st d a" using pool_inv_member [OF inv m] .
  have at: "subscriptions_at d st = b_subscriptions (objects st a)"
    using subscriptions_at_member [OF inv m] .
  have same: "removeAll s (b_subscriptions (objects st a)) = b_subscriptions (objects st a)"
    using ab at by simp
  have ne: "removeAll s (b_subscriptions (objects st a)) \<noteq> []"
    using same ok by (simp add: bucket_ok_def)
  have "upd a (\<lambda>b. b\<lparr>b_subscriptions := removeAll s (b_subscriptions b)\<rparr>) st = st"
    using same by (simp add: upd_def)
  then show ?thesis using bucket_remove_rest [OF ok ne] Some by (simp add: unsubscribe_fn_def)
qed

lemma absent_stays:
  "pool_inv st \<Longrightarrow> sid s < next_sid st \<Longrightarrow> s \<notin> set (subscriptions_at d st) \<Longrightarrow>
   s \<notin> set (subscriptions_at d (steps xs st))"
proof (induction xs arbitrary: st)
  case Nil
  then show ?case by simp
next
  case (Cons x xs)
  note e = step_effect [OF Cons.prems(1), of x]
  have inv1: "pool_inv (snd (step x st))" using step_inv [OF Cons.prems(1)] by simp
  have sid1: "sid s < next_sid (snd (step x st))" using e Cons.prems(2) by simp
  have un1: "s \<notin> set (subscriptions_at d (snd (step x st)))"
    using e Cons.prems(2,3) by (meson leD)
  show ?case using Cons.IH [OF inv1 sid1 un1] by simp
qed

text \<open>
  C6. The function returned by \<open>run\<close> or \<open>once\<close> for a subscription never raises. Its first
  call removes that subscription from the bucket of its delay and changes no other
  subscription; a second call, and any call after whatever the pool has done since, returns
  the state as it found it; so does a call after \<open>clear()\<close>, which does not raise either.
\<close>

theorem idempotent_unsubscribe:
  "pool_inv st \<Longrightarrow> sid s < next_sid st \<Longrightarrow>
   fst (unsubscribe_fn d s st) = None \<and>
   (\<forall>d'. subscriptions_at d' (snd (unsubscribe_fn d s st)) =
      (if d' = d then removeAll s (subscriptions_at d st) else subscriptions_at d' st)) \<and>
   unsubscribe_fn d s (snd (unsubscribe_fn d s st)) = (None, snd (unsubscribe_fn d s st)) \<and>
   (\<forall>xs. unsubscribe_fn d s (steps xs (snd (unsubscribe_fn d s st))) =
      (None, steps xs (snd (unsubscribe_fn d s st)))) \<and>
   fst (clear st) = None \<and>
   unsubscribe_fn d s (snd (clear st)) = (None, snd (clear st)) \<and>
   (\<forall>xs. unsubscribe_fn d s (steps xs (snd (clear st))) = (None, steps xs (snd (clear st))))"
proof -
  assume inv: "pool_inv st" and sid: "sid s < next_sid st"
  note u = unsubscribe_fn_inv [OF inv, where d = d and s = s]
  have ab1: "s \<notin> set (subscriptions_at d (snd (unsubscribe_fn d s st)))"
    using u(3) [of d] by simp
  have sid1: "sid s < next_sid (snd (unsubscribe_fn d s st))" using u(5) sid by simp
  have later1: "\<And>xs. unsubscribe_fn d s (steps xs (snd (unsubscribe_fn d s st))) =
      (None, steps xs (snd (unsubscribe_fn d s st)))"
    using unsubscribe_absent [OF steps_inv [OF u(2)] absent_stays [OF u(2) sid1 ab1]] .
  note c = clear_inv [OF inv]
  have ab2: "s \<notin> set (subscriptions_at d (snd (clear st)))"
    using clear_subscriptions_at [OF inv] by simp
  have sid2: "sid s < next_sid (snd (clear st))" using c(6) sid by simp
  have later2: "\<And>xs. unsubscribe_fn d s (steps xs (snd (clear st))) =
      (None, steps xs (snd (clear st)))"
    using unsubscribe_absent [OF steps_inv [OF c(2)] absent_stays [OF c(2) sid2 ab2]] .
  show ?thesis
    using u(1) u(3) later1 [of "[]"] later1 c(1) later2 [of "[]"] later2 by simp
qed

theorem idempotent_unsubscribe_witness:
  "pool_inv (snd (snd (run 1000 (User 1 False) new_pool))) \<and>
   sid \<lparr>sid = 0, callback = User 1 False, once = False\<rparr> <
     next_sid (snd (snd (run 1000 (User 1 False) new_pool))) \<and>
   subscriptions_at 1000 (snd (snd (run 1000 (User 1 False) new_pool))) =
     [\<lparr>sid = 0, callback = User 1 False, once = False\<rparr>] \<and>
   subscriptions_at 1000
     (snd (unsubscribe_fn 1000 \<lparr>sid = 0, callback = User 1 False, once = False\<rparr>
             (snd (snd (run 1000 (User 1 False) new_pool))))) = [] \<and>
   unsubscribe_fn 1000 \<lparr>sid = 0, callback = User 1 False, once = False\<rparr>
     (snd (unsubscribe_fn 1000 \<lparr>sid = 0, callback = User 1 False, once = False\<rparr>
             (snd (snd (run 1000 (User 1 False) new_pool))))) =
     (None, snd (unsubscribe_fn 1000 \<lparr>sid = 0, callback = User 1 False, once = False\<rparr>
             (snd (snd (run 1000 (User 1 False) new_pool))))) \<and>
   unsubscribe_fn 1000 \<lparr>sid = 0, callback = User 1 False, once = False\<rparr>
     (snd (clear (snd (snd (run 1000 (User 1 False) new_pool))))) =
     (None, snd (clear (snd (snd (run 1000 (User 1 False) new_pool)))))"
  using idempotent_unsubscribe [of "snd (snd (run 1000 (User 1 False) new_pool))"
      "\<lparr>sid = 0, callback = User 1 False, once = False\<rparr>" 1000]
  by (simp add: pool_eval)

section \<open>Subscriptions that fire once\<close>

lemma count_list_distinct: "distinct xs \<Longrightarrow> x \<in> set xs \<Longrightarrow> count_list xs x = 1"
  by (induction xs) auto

lemma subscriptions_at_distinct:
  assumes "pool_inv st"
  shows "distinct (subscriptions_at d st)"
proof (cases "map_of (buckets st) d")
  case None
  then show ?thesis by (simp add: subscriptions_at_def)
next
  case (Some a)
  then show ?thesis
    using pool_inv_bucket [OF assms Some] by (simp add: subscriptions_at_def bucket_ok_def)
qed

lemma once_fires_once:
  assumes inv: "pool_inv st" and reg: "s \<in> set (subscriptions_at d st)" and o: "once s"
    and only: "\<forall>d'. d' \<noteq> d \<longrightarrow> s \<notin> set (subscriptions_at d' st)"
    and f: "find (\<lambda>t. fst t = h) (timers st) = Some (h, a, d)"
  shows "fst (fire h st) = None"
    and "count_list (calls (snd (fire h st))) s = Suc (count_list (calls st) s)"
    and "getSubscriptionCount d (snd (fire h st)) =
           length (filter (\<lambda>x. \<not> once x) (subscriptions_at d st))"
    and "\<forall>xs. count_list (calls (steps xs (snd (fire h st)))) s = Suc (count_list (calls st) s) \<and>
              (\<forall>d'. s \<notin> set (subscriptions_at d' (steps xs (snd (fire h st)))))"
proof -
  note fi = fire_inv [OF inv f]
  show "fst (fire h st) = None" using fi(1) .
  show c: "count_list (calls (snd (fire h st))) s = Suc (count_list (calls st) s)"
    using fi(3) count_list_distinct [OF subscriptions_at_distinct [OF inv] reg] by simp
  show "getSubscriptionCount d (snd (fire h st)) =
           length (filter (\<lambda>x. \<not> once x) (subscriptions_at d st))"
    using fi(5) [of d] by (simp add: getSubscriptionCount_length)
  have un: "\<forall>d'. s \<notin> set (subscriptions_at d' (snd (fire h st)))"
    using fi(5) only o by auto
  have sid: "sid s < next_sid (snd (fire h st))"
    using subscriptions_at_sid [OF inv reg] fi(4) by simp
  show "\<forall>xs. count_list (calls (steps xs (snd (fire h st)))) s = Suc (count_list (calls st) s) \<and>
              (\<forall>d'. s \<notin> set (subscriptions_at d' (steps xs (snd (fire h st)))))"
    using unregistered_stays [OF fi(2) sid un] c by simp
qed

lemma once_registers:
  assumes inv: "pool_inv st"
  shows "once (fst (snd (once_fn d cb st)))"
    and "callback (fst (snd (once_fn d cb st))) = cb"
    and "fst (snd (once_fn d cb st)) \<in> set (subscriptions_at d (snd (snd (once_fn d cb st))))"
    and "\<forall>d'. d' \<noteq> d \<longrightarrow>
           fst (snd (once_fn d cb st)) \<notin> set (subscriptions_at d' (snd (snd (once_fn d cb st))))"
    and "count_list (calls (snd (snd (once_fn d cb st)))) (fst (snd (once_fn d cb st))) = 0"
    and "getSubscriptionCount d (snd (snd (once_fn d cb st))) = Suc (getSubscriptionCount d st)"
proof -
  note e = once_effect [OF inv, where d = d and cb = cb]
  show "once (fst (snd (once_fn d cb st)))" using e(1) by simp
  show "callback (fst (snd (once_fn d cb st))) = cb" using e(1) by simp
  show "fst (snd (once_fn d cb st)) \<in> set (subscriptions_at d (snd (snd (once_fn d cb st))))"
    using e(1) e(2) [of d] by simp
  show "\<forall>d'. d' \<noteq> d \<longrightarrow>
           fst (snd (once_fn d cb st)) \<notin> set (subscriptions_at d' (snd (snd (once_fn d cb st))))"
  proof (intro allI impI)
    fix d' assume ne: "d' \<noteq> d"
    have "\<lparr>sid = next_sid st, callback = cb, once = True\<rparr> \<notin> set (subscriptions_at d' st)"
      using subscriptions_at_sid [OF inv, of "\<lparr>sid = next_sid st, callback = cb, once = True\<rparr>" d']
      by auto
    then show "fst (snd (once_fn d cb st)) \<notin> set (subscriptions_at d' (snd (snd (once_fn d cb st))))"
      using e(1) e(2) [of d'] ne by simp
  qed
  have "\<lparr>sid = next_sid st, callback = cb, once = True\<rparr> \<notin> set (calls st)"
    using inv by (auto simp add: pool_inv_def)
  then show "count_list (calls (snd (snd (once_fn d cb st)))) (fst (snd (once_fn d cb st))) = 0"
    using e(1) e(3) by (simp add: count_list_0_iff)
  show "getSubscriptionCount d (snd (snd (once_fn d cb st))) = Suc (getSubscriptionCount d st)"
    using e(2) [of d] by (simp add: getSubscriptionCount_length)
qed

text \<open>
  In the current \<open>index.ts\<close>, with callbacks that do not call the pool:
  \<open>once(period, callback)\<close> registers a new subscription that has not been invoked. On the
  tick of its period its callback is invoked one time and \<open>#notifySubscription\<close> removes the
  subscription in its \<open>finally\<close> block, whether the callback returned or raised:
  \<open>getSubscriptionCount(period)\<close> counts only the recurring subscriptions afterwards, and
  whatever happens to the pool later, further ticks included, the subscription is registered
  nowhere and the number of its invocations stays what it was after that tick.
\<close>

lemma once_removed_in_finally:
  "(pool_inv st \<longrightarrow>
      once (fst (snd (once_fn d cb st))) \<and> callback (fst (snd (once_fn d cb st))) = cb \<and>
      fst (snd (once_fn d cb st)) \<in> set (subscriptions_at d (snd (snd (once_fn d cb st)))) \<and>
      (\<forall>d'. d' \<noteq> d \<longrightarrow>
         fst (snd (once_fn d cb st)) \<notin> set (subscriptions_at d' (snd (snd (once_fn d cb st))))) \<and>
      count_list (calls (snd (snd (once_fn d cb st)))) (fst (snd (once_fn d cb st))) = 0 \<and>
      pool_inv (snd (snd (once_fn d cb st)))) \<and>
   (pool_inv st \<and> s \<in> set (subscriptions_at d st) \<and> once s \<and>
    (\<forall>d'. d' \<noteq> d \<longrightarrow> s \<notin> set (subscriptions_at d' st)) \<and>
    find (\<lambda>t. fst t = h) (timers st) = Some (h, a, d) \<longrightarrow>
      fst (fire h st) = None \<and>
      count_list (calls (snd (fire h st))) s = Suc (count_list (calls st) s) \<and>
      s \<notin> set (subscriptions_at d (snd (fire h st))) \<and>
      getSubscriptionCount d (snd (fire h st)) =
        length (filter (\<lambda>x. \<not> once x) (subscriptions_at d st)) \<and>
      (\<forall>xs. count_list (calls (steps xs (snd (fire h st)))) s = Suc (count_list (calls st) s) \<and>
            (\<forall>d'. s \<notin> set (subscriptions_at d' (steps xs (snd (fire h st)))))))"
proof (intro conjI impI)
  assume inv: "pool_inv st"
  show "once (fst (snd (once_fn d cb st)))"
    and "callback (fst (snd (once_fn d cb st))) = cb"
    and "fst (snd (once_fn d cb st)) \<in> set (subscriptions_at d (snd (snd (once_fn d cb st))))"
    and "\<forall>d'. d' \<noteq> d \<longrightarrow>
         fst (snd (once_fn d cb st)) \<notin> set (subscriptions_at d' (snd (snd (once_fn d cb st))))"
    and "count_list (calls (snd (snd (once_fn d cb st)))) (fst (snd (once_fn d cb st))) = 0"
    and "pool_inv (snd (snd (once_fn d cb st)))"
    using once_registers [OF inv] once_inv [OF inv] by simp_all
next
  assume h: "pool_inv st \<and> s \<in> set (subscriptions_at d st) \<and> once s \<and>
    (\<forall>d'. d' \<noteq> d \<longrightarrow> s \<notin> set (subscriptions_at d' st)) \<and>
    find (\<lambda>t. fst t = h) (timers st) = Some (h, a, d)"
  then have inv: "pool_inv st" and reg: "s \<in> set (subscriptions_at d st)" and o: "once s"
    and only: "\<forall>d'. d' \<noteq> d \<longrightarrow> s \<notin> set (subscriptions_at d' st)"
    and f: "find (\<lambda>t. fst t = h) (timers st) = Some (h, a, d)" by simp_all
  note r = once_fires_once [OF inv reg o only f]
  show "fst (fire h st) = None" using r(1) .
  show "count_list (calls (snd (fire h st))) s = Suc (count_list (calls st) s)" using r(2) .
  show "getSubscriptionCount d (snd (fire h st)) =
        length (filter (\<lambda>x. \<not> once x) (subscriptions_at d st))" using r(3) .
  show "\<forall>xs. count_list (calls (steps xs (snd (fire h st)))) s = Suc (count_list (calls st) s) \<and>
            (\<forall>d'. s \<notin> set (subscriptions_at d' (steps xs (snd (fire h st)))))" using r(4) .
  show "s \<notin> set (subscriptions_at d (snd (fire h st)))" using r(4) [rule_format, of "[]"] by simp
qed


text \<open>The definitions a tick on a concrete pool state is evaluated with.\<close>

lemmas tick_eval =
  fire_def bucket_handleIntervalTick_def notifySubscription_def invoke_def

lemma once_removed_in_finally_example:
  "pool_inv new_pool \<and>
   fst (snd (once_fn 1000 (User 1 True) new_pool)) =
     \<lparr>sid = 0, callback = User 1 True, once = True\<rparr> \<and>
   pool_inv (snd (snd (once_fn 1000 (User 1 True) new_pool))) \<and>
   \<lparr>sid = 0, callback = User 1 True, once = True\<rparr>
     \<in> set (subscriptions_at 1000 (snd (snd (once_fn 1000 (User 1 True) new_pool)))) \<and>
   find (\<lambda>t. fst t = 1) (timers (snd (snd (once_fn 1000 (User 1 True) new_pool)))) =
     Some (1, 0, 1000) \<and>
   count_list (calls (snd (snd (once_fn 1000 (User 1 True) new_pool))))
     \<lparr>sid = 0, callback = User 1 True, once = True\<rparr> = 0 \<and>
   count_list (calls (snd (fire 1 (snd (snd (once_fn 1000 (User 1 True) new_pool))))))
     \<lparr>sid = 0, callback = User 1 True, once = True\<rparr> = 1 \<and>
   getSubscriptionCount 1000 (snd (fire 1 (snd (snd (once_fn 1000 (User 1 True) new_pool))))) = 0 \<and>
   count_list
     (calls (steps [Fire 1, Run 1000 (User 2 False), Fire 2, Fire 2]
               (snd (fire 1 (snd (snd (once_fn 1000 (User 1 True) new_pool)))))))
     \<lparr>sid = 0, callback = User 1 True, once = True\<rparr> = 1"
  using once_removed_in_finally [of new_pool 1000 "User 1 True"]
    once_removed_in_finally [of "snd (snd (once_fn 1000 (User 1 True) new_pool))" 1000 "User 1 True"
      "\<lparr>sid = 0, callback = User 1 True, once = True\<rparr>" 1 0]
  by (simp add: pool_eval tick_eval)

text \<open>
  C5. The removal of a \<open>once\<close> subscription after its first tick fails in the tick handler
  written inline in the earlier \<open>index.ts\<close> when the callback raises. There
  \<open>callback()\<close> and \<open>if (once) this.#removeSubscription(delay, subscription)\<close> stand in the
  same \<open>try\<close> block, so a raise skips the removal. For \<open>pool.once(1000, cb)\<close> with a
  \<open>cb\<close> that raises, the first tick invokes \<open>cb\<close> and logs its error, and
  \<open>getSubscriptionCount(1000)\<close> is still 1; the second tick invokes \<open>cb\<close> again. A
  \<open>cb\<close> that returns is removed by its first tick and not invoked by a second one, and in
  the current \<open>index.ts\<close> the first tick removes the raising one too.
\<close>

theorem raising_once_callback_fires_again:
  "fst (once_old 1000 (User 1 True) empty_old_pool) =
     \<lparr>sid = 0, callback = User 1 True, once = True\<rparr> \<and>
   timers (snd (once_old 1000 (User 1 True) empty_old_pool)) = [(1, 0, 1000)] \<and>
   calls (fire_old 1 (snd (once_old 1000 (User 1 True) empty_old_pool))) =
     [\<lparr>sid = 0, callback = User 1 True, once = True\<rparr>] \<and>
   console (fire_old 1 (snd (once_old 1000 (User 1 True) empty_old_pool))) = [User 1 True] \<and>
   getSubscriptionCount_old 1000 (fire_old 1 (snd (once_old 1000 (User 1 True) empty_old_pool))) = 1 \<and>
   calls (fire_old 1 (fire_old 1 (snd (once_old 1000 (User 1 True) empty_old_pool)))) =
     [\<lparr>sid = 0, callback = User 1 True, once = True\<rparr>,
      \<lparr>sid = 0, callback = User 1 True, once = True\<rparr>] \<and>
   getSubscriptionCount_old 1000 (fire_old 1 (snd (once_old 1000 (User 2 False) empty_old_pool))) = 0 \<and>
   calls (fire_old 1 (fire_old 1 (snd (once_old 1000 (User 2 False) empty_old_pool)))) =
     [\<lparr>sid = 0, callback = User 2 False, once = True\<rparr>] \<and>
   getSubscriptionCount 1000 (snd (fire 1 (snd (snd (once_fn 1000 (User 1 True) new_pool))))) = 0"
  by (simp add: pool_eval tick_eval old_eval)

section \<open>Pulling ticks from a session\<close>

lemma invoke_sessions:
  "sessions (snd (invoke s st)) k =
     (if callback s = IterCallback k then iter_callback (sessions st k) else sessions st k)"
  by (simp add: invoke_def split: callback.splits)

lemma notifySubscription_frame:
  assumes inv: "pool_inv st" and m: "(d, a) \<in> set (buckets st)"
    and sin: "s \<in> set (b_subscriptions (objects st a))"
  shows "sessions (snd (notifySubscription a s st)) k =
           (if callback s = IterCallback k then iter_callback (sessions st k) else sessions st k)"
    and "timers (snd (notifySubscription a s st)) =
           (if once s \<and> removeAll s (b_subscriptions (objects st a)) = []
            then filter (\<lambda>t. fst t \<noteq> the (b_intervalId (objects st a))) (timers st)
            else timers st)"
proof -
  obtain thrown st1 where i: "invoke s st = (thrown, st1)" by (cases "invoke s st")
  define st2 where "st2 = (if thrown then st1\<lparr>console := console st1 @ [callback s]\<rparr> else st1)"
  have sid: "sid s < next_sid st"
    using pool_inv_member [OF inv m] sin by (simp add: bucket_ok_def)
  have inv2: "pool_inv st2" using pool_inv_invoke [OF inv sid] i by (simp add: st2_def)
  have f2: "objects st2 = objects st" "buckets st2 = buckets st"
    using invoke_pool_fields(1,2) [of s st] i by (simp_all add: st2_def)
  have t2: "timers st2 = timers st" using invoke_timers [of s st] i by (simp add: st2_def)
  have s2: "sessions st2 k =
           (if callback s = IterCallback k then iter_callback (sessions st k) else sessions st k)"
    using invoke_sessions [of s st k] i by (simp add: st2_def)
  have m2: "(d, a) \<in> set (buckets st2)" using m f2 by simp
  note br = bucket_remove_inv [OF inv2 m2, where s = s]
  have unf: "notifySubscription a s st = (if once s then bucket_remove a s st2 else (None, st2))"
    using i by (simp add: notifySubscription_def st2_def Let_def)
  show "sessions (snd (notifySubscription a s st)) k =
           (if callback s = IterCallback k then iter_callback (sessions st k) else sessions st k)"
    unfolding unf using br(6) s2 by simp
  show "timers (snd (notifySubscription a s st)) =
           (if once s \<and> removeAll s (b_subscriptions (objects st a)) = []
            then filter (\<lambda>t. fst t \<noteq> the (b_intervalId (objects st a))) (timers st)
            else timers st)"
    unfolding unf using br(10) f2 t2 by simp
qed

lemma bucket_forEach_frame:
  "pool_inv st \<Longrightarrow> distinct xs \<Longrightarrow> set xs \<subseteq> set (b_subscriptions (objects st a)) \<Longrightarrow>
   (xs \<noteq> [] \<longrightarrow> (d, a) \<in> set (buckets st)) \<Longrightarrow>
   sessions (snd (bucket_forEach xs a st)) k =
     (iter_callback ^^ length (filter (\<lambda>s. callback s = IterCallback k) xs)) (sessions st k) \<and>
   (subscriptions_at d (snd (bucket_forEach xs a st)) \<noteq> [] \<longrightarrow>
      timers (snd (bucket_forEach xs a st)) = timers st \<and>
      buckets (snd (bucket_forEach xs a st)) = buckets st)"
proof (induction xs arbitrary: st)
  case Nil
  then show ?case by simp
next
  case (Cons s rest)
  have m: "(d, a) \<in> set (buckets st)" using Cons.prems by simp
  have sin: "s \<in> set (b_subscriptions (objects st a))" using Cons.prems by simp
  note inv = Cons.prems(1)
  obtain st1 where n: "notifySubscription a s st = (None, st1)"
    using notifySubscription_inv(1) [OF inv m sin] by (cases "notifySubscription a s st") simp
  have inv1: "pool_inv st1" using notifySubscription_inv(2) [OF inv m sin] n by simp
  have at1: "subscriptions_at d st1 =
           (if once s then removeAll s (subscriptions_at d st) else subscriptions_at d st)"
    using notifySubscription_inv(4) [OF inv m sin, of d] n by simp
  have b1: "buckets st1 =
           (if once s \<and> removeAll s (b_subscriptions (objects st a)) = []
            then AList.delete d (buckets st) else buckets st)"
    using notifySubscription_inv(5) [OF inv m sin] n by simp
  have s1: "b_subscriptions (objects st1 a) =
           (if once s then removeAll s (b_subscriptions (objects st a))
            else b_subscriptions (objects st a))"
    using notifySubscription_inv(6) [OF inv m sin] n by simp
  have se1: "sessions st1 k =
           (if callback s = IterCallback k then iter_callback (sessions st k) else sessions st k)"
    using notifySubscription_frame(1) [OF inv m sin, of k] n by simp
  have t1: "timers st1 =
           (if once s \<and> removeAll s (b_subscriptions (objects st a)) = []
            then filter (\<lambda>t. fst t \<noteq> the (b_intervalId (objects st a))) (timers st)
            else timers st)"
    using notifySubscription_frame(2) [OF inv m sin] n by simp
  have snr: "s \<notin> set rest" and dr: "distinct rest" using Cons.prems by simp_all
  have sub1: "set rest \<subseteq> set (b_subscriptions (objects st1 a))"
    using Cons.prems s1 snr by auto
  have m1: "rest \<noteq> [] \<longrightarrow> (d, a) \<in> set (buckets st1)"
  proof
    assume "rest \<noteq> []"
    then have "b_subscriptions (objects st1 a) \<noteq> []" using sub1 by (cases rest) auto
    then show "(d, a) \<in> set (buckets st1)" using b1 s1 m by (auto split: if_splits)
  qed
  note ih = Cons.IH [OF inv1 dr sub1 m1]
  note fe = bucket_forEach_inv [OF inv1 dr sub1 m1]
  have unf: "bucket_forEach (s # rest) a st = bucket_forEach rest a st1"
    using sin n by simp
  have at: "subscriptions_at d st = b_subscriptions (objects st a)"
    using subscriptions_at_member [OF inv m] .
  have p1: "sessions (snd (bucket_forEach (s # rest) a st)) k =
     (iter_callback ^^ length (filter (\<lambda>s. callback s = IterCallback k) (s # rest))) (sessions st k)"
    unfolding unf using ih se1 by (simp add: funpow_swap1)
  have p2: "subscriptions_at d (snd (bucket_forEach (s # rest) a st)) \<noteq> [] \<longrightarrow>
      timers (snd (bucket_forEach (s # rest) a st)) = timers st \<and>
      buckets (snd (bucket_forEach (s # rest) a st)) = buckets st"
  proof
    assume ne: "subscriptions_at d (snd (bucket_forEach (s # rest) a st)) \<noteq> []"
    then have ne': "subscriptions_at d (snd (bucket_forEach rest a st1)) \<noteq> []" unfolding unf .
    then have "subscriptions_at d st1 \<noteq> []" using fe by auto
    then have keep: "\<not> (once s \<and> removeAll s (b_subscriptions (objects st a)) = [])"
      using at1 at by auto
    show "timers (snd (bucket_forEach (s # rest) a st)) = timers st \<and>
      buckets (snd (bucket_forEach (s # rest) a st)) = buckets st"
      unfolding unf using ih ne' keep t1 b1 by simp
  qed
  show ?case using p1 p2 by simp
qed

lemma fire_frame:
  assumes inv: "pool_inv st" and f: "find (\<lambda>t. fst t = h) (timers st) = Some (h', a, d)"
  shows "sessions (snd (fire h st)) k =
     (iter_callback ^^ length (filter (\<lambda>s. callback s = IterCallback k) (subscriptions_at d st)))
       (sessions st k)"
    and "subscriptions_at d (snd (fire h st)) \<noteq> [] \<longrightarrow>
      timers (snd (fire h st)) = timers st \<and> buckets (snd (fire h st)) = buckets st"
proof -
  have tin: "(h', a, d) \<in> set (timers st)" using f by (auto simp add: find_Some_iff in_set_conv_nth)
  then have m: "(d, a) \<in> set (buckets st)" using pool_inv_timer [OF inv tin] by simp
  have ok: "bucket_ok st d a" using pool_inv_member [OF inv m] .
  have at: "subscriptions_at d st = b_subscriptions (objects st a)"
    using subscriptions_at_member [OF inv m] .
  have dist: "distinct (b_subscriptions (objects st a))" using ok by (simp add: bucket_ok_def)
  have unf: "fire h st = bucket_forEach (b_subscriptions (objects st a)) a st"
    using f by (simp add: fire_def bucket_handleIntervalTick_def)
  have mm: "b_subscriptions (objects st a) \<noteq> [] \<longrightarrow> (d, a) \<in> set (buckets st)" using m by simp
  note fr = bucket_forEach_frame [OF inv dist subset_refl mm, of k]
  show "sessions (snd (fire h st)) k =
     (iter_callback ^^ length (filter (\<lambda>s. callback s = IterCallback k) (subscriptions_at d st)))
       (sessions st k)"
    unfolding unf at using fr by simp
  show "subscriptions_at d (snd (fire h st)) \<noteq> [] \<longrightarrow>
      timers (snd (fire h st)) = timers st \<and> buckets (snd (fire h st)) = buckets st"
    unfolding unf using fr by simp
qed

lemma steps_append: "steps (xs @ ys) st = steps ys (steps xs st)"
  by (induction xs arbitrary: st) simp_all

lemma attached_fire:
  assumes at: "attached k d h st"
  shows "attached k d h (snd (fire h st))"
    and "sessions (snd (fire h st)) k = iter_callback (sessions st k)"
proof -
  have inv: "pool_inv st" using at by (simp add: attached_def)
  obtain t where t: "find (\<lambda>t. fst t = h) (timers st) = Some t" "snd (snd t) = d"
    using at by (auto simp add: attached_def split: option.splits)
  then have f: "find (\<lambda>t. fst t = h) (timers st) = Some (fst t, fst (snd t), d)" by auto
  have one: "map once (filter (\<lambda>s. callback s = IterCallback k) (subscriptions_at d st)) = [False]"
    using at by (simp add: attached_def)
  then have len: "length (filter (\<lambda>s. callback s = IterCallback k) (subscriptions_at d st)) = 1"
    using length_map [of once "filter (\<lambda>s. callback s = IterCallback k) (subscriptions_at d st)"]
    by simp
  note fi = fire_inv [OF inv f] and fr = fire_frame [OF inv f]
  show s: "sessions (snd (fire h st)) k = iter_callback (sessions st k)"
    using fr(1) [of k] len by simp
  have af: "subscriptions_at d (snd (fire h st)) = filter (\<lambda>s. \<not> once s) (subscriptions_at d st)"
    using fi(5) [of d] by simp
  obtain sub where sub: "filter (\<lambda>s. callback s = IterCallback k) (subscriptions_at d st) = [sub]"
    "\<not> once sub" using one by auto
  have "filter (\<lambda>s. callback s = IterCallback k) (filter (\<lambda>s. \<not> once s) (subscriptions_at d st))
        = filter (\<lambda>s. \<not> once s) (filter (\<lambda>s. callback s = IterCallback k) (subscriptions_at d st))"
    by (simp add: conj_commute)
  then have keep: "filter (\<lambda>s. callback s = IterCallback k) (subscriptions_at d (snd (fire h st))) = [sub]"
    using af sub by simp
  then have ne: "subscriptions_at d (snd (fire h st)) \<noteq> []" by auto
  have tm: "timers (snd (fire h st)) = timers st" using fr(2) ne by simp
  have st: "stopped (iter_callback (sessions st k)) = stopped (sessions st k)"
    by (simp add: iter_callback_def Let_def)
  show "attached k d h (snd (fire h st))"
    using fi(2) tm t keep sub(2) s st at by (simp add: attached_def)
qed

lemma iter_callback_idle:
  "\<not> resolve s \<Longrightarrow> iter_callback s = s\<lparr>lostTicks := Suc (lostTicks s)\<rparr>"
  by (simp add: iter_callback_def Let_def)

lemma iter_callback_waiting:
  "resolve s \<Longrightarrow>
   iter_callback s = s\<lparr>lostTicks := Suc (lostTicks s), pc := PromiseResolved, resolve := False\<rparr>"
  by (simp add: iter_callback_def Let_def)

lemma tick_idle:
  assumes "attached k d h st" and "idle_at_yield k m dl st"
  shows "attached k d h (snd (fire h st)) \<and> idle_at_yield k (Suc m) dl (snd (fire h st))"
  using attached_fire [OF assms(1)] assms(2)
  by (simp add: idle_at_yield_def iter_callback_idle)

lemma tick_settled:
  assumes "attached k d h st" and "settled k m dl st"
  shows "attached k d h (snd (fire h st)) \<and> settled k (Suc m) dl (snd (fire h st))"
  using attached_fire [OF assms(1)] assms(2)
  by (simp add: settled_def iter_callback_idle)

lemma tick_suspended:
  assumes "attached k d h st" and "suspended k dl st"
  shows "attached k d h (snd (fire h st)) \<and> settled k (Suc 0) dl (snd (fire h st))"
  using attached_fire [OF assms(1)] assms(2)
  by (simp add: settled_def suspended_def iter_callback_waiting)

lemma ticks_idle:
  "attached k d h st \<Longrightarrow> idle_at_yield k m dl st \<Longrightarrow>
   attached k d h (steps (replicate n (Fire h)) st) \<and>
   idle_at_yield k (m + n) dl (steps (replicate n (Fire h)) st)"
proof (induction n arbitrary: st m)
  case 0
  then show ?case by simp
next
  case (Suc n)
  note t = tick_idle [OF Suc.prems]
  show ?case using Suc.IH [of "snd (fire h st)" "Suc m"] t by simp
qed

lemma ticks_settled:
  "attached k d h st \<Longrightarrow> settled k m dl st \<Longrightarrow>
   attached k d h (steps (replicate n (Fire h)) st) \<and>
   settled k (m + n) dl (steps (replicate n (Fire h)) st)"
proof (induction n arbitrary: st m)
  case 0
  then show ?case by simp
next
  case (Suc n)
  note t = tick_settled [OF Suc.prems]
  show ?case using Suc.IH [of "snd (fire h st)" "Suc m"] t by simp
qed


lemma gen_inner_deliver:
  "0 < lostTicks s \<Longrightarrow> requests s = Suc 0 \<Longrightarrow>
   gen_inner s = s\<lparr>requests := 0, delivered := Suc (delivered s), pc := AtYield\<rparr>"
  by (subst gen_inner.simps) (simp add: Let_def)

lemma gen_inner_await:
  "lostTicks s = 0 \<Longrightarrow> \<not> stopped s \<Longrightarrow>
   gen_inner s = s\<lparr>resolve := True, pc := AwaitingPromise\<rparr>"
  by (subst gen_inner.simps, subst gen_outer.simps) simp

lemma attached_set_session:
  "attached k d h st \<Longrightarrow> \<not> stopped s \<Longrightarrow> attached k d h (set_session k s st)"
  by (simp add: attached_def set_session_def subscriptions_at_set_session [unfolded set_session_def])

lemma pull_delivers:
  assumes at: "attached k d h st" and idle: "idle_at_yield k (Suc (Suc m)) dl st"
  shows "fst (gen_next k st) = None \<and> attached k d h (snd (gen_next k st)) \<and>
         idle_at_yield k (Suc m) (Suc dl) (snd (gen_next k st))"
proof -
  define s where "s = sessions st k"
  have f: "pc s = AtYield" "lostTicks s = Suc (Suc m)" "requests s = 0" "delivered s = dl"
    "\<not> resolve s" using idle by (simp_all add: idle_at_yield_def s_def)
  have ns: "\<not> stopped s" using at by (simp add: attached_def s_def)
  define s1 where "s1 = s\<lparr>requests := Suc (requests s), lostTicks := lostTicks s - 1, pc := Running\<rparr>"
  have g: "gen_inner s1 = s1\<lparr>requests := 0, delivered := Suc (delivered s1), pc := AtYield\<rparr>"
    using f by (intro gen_inner_deliver) (simp_all add: s1_def)
  define s2 where "s2 = gen_inner s1"
  have f2: "pc s2 = AtYield" "lostTicks s2 = Suc m" "requests s2 = 0" "delivered s2 = Suc dl"
    "\<not> resolve s2" "\<not> stopped s2"
    using f ns g by (simp_all add: s2_def s1_def)
  have "gen_next k st = gen_continue k (set_session k (gen_inner s1) st)"
    using f by (simp add: gen_next_def Let_def s_def [symmetric] s1_def)
  then have unf: "gen_next k st = (None, set_session k s2 st)"
    using f2 by (simp add: s2_def [symmetric] gen_continue_def)
  show ?thesis
    unfolding unf using attached_set_session [OF at f2(6)] f2
    by (simp add: idle_at_yield_def)
qed

lemma pull_suspends:
  assumes at: "attached k d h st" and idle: "idle_at_yield k (Suc 0) dl st"
  shows "fst (gen_next k st) = None \<and> attached k d h (snd (gen_next k st)) \<and>
         suspended k dl (snd (gen_next k st))"
proof -
  define s where "s = sessions st k"
  have f: "pc s = AtYield" "lostTicks s = Suc 0" "requests s = 0" "delivered s = dl"
    "\<not> resolve s" using idle by (simp_all add: idle_at_yield_def s_def)
  have ns: "\<not> stopped s" using at by (simp add: attached_def s_def)
  define s1 where "s1 = s\<lparr>requests := Suc (requests s), lostTicks := lostTicks s - 1, pc := Running\<rparr>"
  have g: "gen_inner s1 = s1\<lparr>resolve := True, pc := AwaitingPromise\<rparr>"
    using f ns by (intro gen_inner_await) (simp_all add: s1_def)
  define s2 where "s2 = gen_inner s1"
  have f2: "pc s2 = AwaitingPromise" "lostTicks s2 = 0" "requests s2 = Suc 0" "delivered s2 = dl"
    "resolve s2" "\<not> stopped s2"
    using f ns g by (simp_all add: s2_def s1_def)
  have "gen_next k st = gen_continue k (set_session k (gen_inner s1) st)"
    using f by (simp add: gen_next_def Let_def s_def [symmetric] s1_def)
  then have unf: "gen_next k st = (None, set_session k s2 st)"
    using f2 by (simp add: s2_def [symmetric] gen_continue_def)
  show ?thesis
    unfolding unf using attached_set_session [OF at f2(6)] f2
    by (simp add: suspended_def)
qed

lemma wake_delivers:
  assumes at: "attached k d h st" and se: "settled k (Suc m) dl st"
  shows "fst (gen_wake k st) = None \<and> attached k d h (snd (gen_wake k st)) \<and>
         idle_at_yield k (Suc m) (Suc dl) (snd (gen_wake k st))"
proof -
  define s where "s = sessions st k"
  have f: "pc s = PromiseResolved" "lostTicks s = Suc m" "requests s = Suc 0" "delivered s = dl"
    "\<not> resolve s" using se by (simp_all add: settled_def s_def)
  have ns: "\<not> stopped s" using at by (simp add: attached_def s_def)
  define s1 where "s1 = s\<lparr>pc := Running\<rparr>"
  have g: "gen_inner s1 = s1\<lparr>requests := 0, delivered := Suc (delivered s1), pc := AtYield\<rparr>"
    using f by (intro gen_inner_deliver) (simp_all add: s1_def)
  define s2 where "s2 = gen_inner s1"
  have f2: "pc s2 = AtYield" "lostTicks s2 = Suc m" "requests s2 = 0" "delivered s2 = Suc dl"
    "\<not> resolve s2" "\<not> stopped s2"
    using f ns g by (simp_all add: s2_def s1_def)
  have "gen_wake k st = gen_continue k (set_session k (gen_inner s1) st)"
    using f by (simp add: gen_wake_def Let_def s_def [symmetric] s1_def)
  then have unf: "gen_wake k st = (None, set_session k s2 st)"
    using f2 by (simp add: s2_def [symmetric] gen_continue_def)
  show ?thesis
    unfolding unf using attached_set_session [OF at f2(6)] f2
    by (simp add: idle_at_yield_def)
qed

lemma pulls_deliver:
  "attached k d h st \<Longrightarrow> idle_at_yield k (Suc (m + j)) dl st \<Longrightarrow>
   attached k d h (steps (replicate j (Next k)) st) \<and>
   idle_at_yield k (Suc m) (dl + j) (steps (replicate j (Next k)) st)"
proof (induction j arbitrary: st dl)
  case 0
  then show ?case by simp
next
  case (Suc j)
  have idle: "idle_at_yield k (Suc (Suc (m + j))) dl st" using Suc.prems(2) by simp
  note p = pull_delivers [OF Suc.prems(1) idle]
  show ?case using Suc.IH [of "snd (gen_next k st)" "Suc dl"] p by simp
qed


lemma find_distinct_fst:
  "distinct (map fst ts) \<Longrightarrow> t \<in> set ts \<Longrightarrow> find (\<lambda>x. fst x = fst t) ts = Some t"
  by (induction ts) (auto simp add: rev_image_eqI)

lemma subscribe_sessions: 
  assumes inv: "pool_inv st"
  shows "sessions (snd (subscribe d s st)) = sessions st"
proof (cases "map_of (buckets st) d")
  case None
  then show ?thesis using subscribe_new [OF None, of s] by simp
next
  case (Some a)
  have ok: "bucket_ok st d a" using pool_inv_bucket [OF inv Some] .
  then have nd: "\<not> b_disposed (objects st a)" by (simp add: bucket_ok_def)
  show ?thesis using subscribe_existing [OF Some nd bucket_ok_truthy [OF ok], of s] by simp
qed

lemma run_sessions:
  assumes inv: "pool_inv st"
  shows "sessions (snd (snd (run d cb st))) = sessions st"
  using subscribe_sessions [OF pool_inv_next_sid [OF inv],
      of d "\<lparr>sid = next_sid st, callback = cb, once = False\<rparr>"]
  by (simp add: run_def Let_def case_prod_unfold)

lemma first_pull:
  assumes inv: "pool_inv st"
    and fresh: "\<forall>s \<in> set (subscriptions_at d st). callback s \<noteq> IterCallback (next_session st)"
  shows "fst (iterate d st) = next_session st"
    and "pc (sessions (snd (iterate d st)) (next_session st)) = NotStarted"
    and "subscriptions_at d (snd (iterate d st)) = subscriptions_at d st"
    and "fst (gen_next (next_session st) (snd (iterate d st))) = None"
    and "suspended (next_session st) 0 (snd (gen_next (next_session st) (snd (iterate d st))))"
    and "\<exists>h. attached (next_session st) d h (snd (gen_next (next_session st) (snd (iterate d st))))"
proof -
  define k where "k = next_session st"
  define st1 where "st1 = snd (iterate d st)"
  have inv1: "pool_inv st1" using iterate_inv [OF inv] by (simp add: st1_def)
  have s1: "sessions st1 k = \<lparr>s_delay = d, lostTicks = 0, resolve = False, stopped = False,
      pc = NotStarted, requests = 0, delivered = 0, unsubscribe = None\<rparr>"
    by (simp add: st1_def iterate_def set_session_def k_def)
  have a1: "subscriptions_at d st1 = subscriptions_at d st"
    using iterate_effect [of d d st] by (simp add: st1_def)
  define st0 where "st0 = set_session k ((sessions st1 k)\<lparr>requests := Suc (requests (sessions st1 k)),
                                      pc := Running\<rparr>) st1"
  have inv0: "pool_inv st0" using inv1 by (simp add: st0_def)
  have a0: "subscriptions_at d st0 = subscriptions_at d st" using a1 by (simp add: st0_def)
  have n0: "next_sid st0 = next_sid st" by (simp add: st0_def st1_def iterate_def set_session_def)
  define sub where "sub = \<lparr>sid = next_sid st0, callback = IterCallback k, once = False\<rparr>"
  obtain st2 where r: "run d (IterCallback k) st0 = (None, sub, st2)"
    using run_inv [OF inv0, of d "IterCallback k"] run_effect(1) [OF inv0, of d "IterCallback k"]
    by (cases "run d (IterCallback k) st0") (auto simp add: sub_def)
  have inv2: "pool_inv st2" using run_inv [OF inv0, of d "IterCallback k"] r by simp
  have a2: "subscriptions_at d st2 = subscriptions_at d st @ [sub]"
    using run_effect(2) [OF inv0, where d = d and d' = d and cb = "IterCallback k"] r a0
    by (simp add: sub_def)
  have se2: "sessions st2 k = (sessions st1 k)\<lparr>requests := Suc 0, pc := Running\<rparr>"
    using run_sessions [OF inv0, of d "IterCallback k"] r s1 by (simp add: st0_def)
  define s3 where "s3 = gen_outer ((sessions st2 k)\<lparr>unsubscribe := Some sub\<rparr>)"
  have g: "s3 = (sessions st2 k)\<lparr>unsubscribe := Some sub, resolve := True, pc := AwaitingPromise\<rparr>"
    unfolding s3_def using se2 s1 by (subst gen_outer.simps) simp
  have f3: "pc s3 = AwaitingPromise" "lostTicks s3 = 0" "requests s3 = Suc 0" "delivered s3 = 0"
    "resolve s3" "\<not> stopped s3"
    using g se2 s1 by simp_all
  define st3 where "st3 = set_session k s3 st2"
  have pcs: "pc (sessions st1 k) = NotStarted" "s_delay (sessions st1 k) = d" using s1 by simp_all
  have "gen_next k st1 = gen_continue k st3"
    using pcs r by (simp add: gen_next_def Let_def st0_def [symmetric] s3_def st3_def)
  then have unf: "gen_next k st1 = (None, st3)"
    using f3 by (simp add: gen_continue_def st3_def)
  have inv3: "pool_inv st3" using inv2 by (simp add: st3_def)
  have a3: "subscriptions_at d st3 = subscriptions_at d st @ [sub]" using a2 by (simp add: st3_def)
  have flt: "filter (\<lambda>s. callback s = IterCallback k) (subscriptions_at d st3) = [sub]"
    using a3 fresh by (simp add: k_def [symmetric] sub_def filter_empty_conv)
  obtain a where a: "map_of (buckets st3) d = Some a"
    using subscriptions_at_key [of d st3] a3 by auto
  define h where "h = the (b_intervalId (objects st3 a))"
  have "timers_for d st3 = [(h, a, d)]" using timers_for_present [OF inv3 a] by (simp add: h_def)
  then have "(h, a, d) \<in> set (timers_for d st3)" by simp
  then have tin: "(h, a, d) \<in> set (timers st3)" by (simp add: timers_for_def)
  have "distinct (map fst (timers st3))" using inv3 by (simp add: pool_inv_def)
  then have fnd: "find (\<lambda>t. fst t = h) (timers st3) = Some (h, a, d)"
    using find_distinct_fst [OF _ tin] by simp
  have att: "attached k d h st3"
    using inv3 fnd flt f3 by (simp add: attached_def sub_def st3_def)
  show "fst (iterate d st) = next_session st" by (simp add: iterate_def)
  show "pc (sessions (snd (iterate d st)) (next_session st)) = NotStarted"
    using s1 by (simp add: st1_def k_def)
  show "subscriptions_at d (snd (iterate d st)) = subscriptions_at d st"
    using a1 by (simp add: st1_def)
  show "fst (gen_next (next_session st) (snd (iterate d st))) = None"
    using unf by (simp add: st1_def k_def)
  show "suspended (next_session st) 0 (snd (gen_next (next_session st) (snd (iterate d st))))"
    using unf f3 by (simp add: st1_def k_def suspended_def st3_def)
  show "\<exists>h. attached (next_session st) d h (snd (gen_next (next_session st) (snd (iterate d st))))"
    using unf att by (auto simp add: st1_def k_def)
qed


lemma waiting_pull_is_served:
  assumes at: "attached k d h st" and su: "suspended k dl st" and n: "0 < n"
  shows "idle_at_yield k n (Suc dl) (steps (replicate n (Fire h) @ [Wake k]) st)"
proof -
  obtain n' where n': "n = Suc n'" using n by (cases n) auto
  note t1 = tick_suspended [OF at su]
  note t2 = ticks_settled [OF t1 [THEN conjunct1] t1 [THEN conjunct2], of n']
  note w = wake_delivers [OF t2 [THEN conjunct1], of n' dl]
  show ?thesis using t2 w by (simp add: n' steps_append)
qed

lemma pending_ticks_are_served:
  assumes at: "attached k d h st" and idle: "idle_at_yield k (Suc m) dl st"
  shows "\<forall>j \<le> m + n. idle_at_yield k (Suc (m + n - j)) (dl + j)
            (steps (replicate n (Fire h) @ replicate j (Next k)) st)"
    and "suspended k (dl + m + n)
           (steps (replicate n (Fire h) @ replicate (Suc (m + n)) (Next k)) st)"
    and "idle_at_yield k (Suc 0) (Suc (dl + m + n))
           (steps (replicate n (Fire h) @ replicate (Suc (m + n)) (Next k) @ [Fire h, Wake k]) st)"
proof -
  define st1 where "st1 = steps (replicate n (Fire h)) st"
  have t: "attached k d h st1" "idle_at_yield k (Suc (m + n)) dl st1"
    using ticks_idle [OF at idle, of n] by (simp_all add: st1_def)
  have pj: "\<And>j. j \<le> m + n \<Longrightarrow> attached k d h (steps (replicate j (Next k)) st1) \<and>
      idle_at_yield k (Suc (m + n - j)) (dl + j) (steps (replicate j (Next k)) st1)"
  proof -
    fix j assume "j \<le> m + n"
    then have "idle_at_yield k (Suc ((m + n - j) + j)) dl st1" using t(2) by simp
    then show "attached k d h (steps (replicate j (Next k)) st1) \<and>
      idle_at_yield k (Suc (m + n - j)) (dl + j) (steps (replicate j (Next k)) st1)"
      using pulls_deliver [OF t(1), of "m + n - j" j dl] by simp
  qed
  show "\<forall>j \<le> m + n. idle_at_yield k (Suc (m + n - j)) (dl + j)
            (steps (replicate n (Fire h) @ replicate j (Next k)) st)"
    using pj by (simp add: steps_append st1_def)
  define st2 where "st2 = steps (replicate (m + n) (Next k)) st1"
  have l: "attached k d h st2" "idle_at_yield k (Suc 0) (dl + (m + n)) st2"
    using pj [of "m + n"] by (simp_all add: st2_def)
  note ps = pull_suspends [OF l]
  have r: "replicate (Suc (m + n)) (Next k) = replicate (m + n) (Next k) @ [Next k]"
    by (simp add: replicate_append_same)
  have e3: "steps (replicate n (Fire h) @ replicate (Suc (m + n)) (Next k)) st = snd (gen_next k st2)"
    unfolding r by (simp add: steps_append st1_def st2_def)
  show "suspended k (dl + m + n)
           (steps (replicate n (Fire h) @ replicate (Suc (m + n)) (Next k)) st)"
    unfolding e3 using ps by (simp add: add.assoc)
  note t1 = tick_suspended [OF ps [THEN conjunct2, THEN conjunct1] ps [THEN conjunct2, THEN conjunct2]]
  note w = wake_delivers [OF t1 [THEN conjunct1] t1 [THEN conjunct2]]
  have e4: "steps (replicate n (Fire h) @ replicate (Suc (m + n)) (Next k) @ [Fire h, Wake k]) st =
     snd (gen_wake k (snd (fire h (snd (gen_next k st2)))))"
    using e3 by (simp add: steps_append [of "replicate n (Fire h) @ replicate (Suc (m + n)) (Next k)", simplified])
  show "idle_at_yield k (Suc 0) (Suc (dl + m + n))
           (steps (replicate n (Fire h) @ replicate (Suc (m + n)) (Next k) @ [Fire h, Wake k]) st)"
    unfolding e4 using w by (simp add: add.assoc)
qed

text \<open>
  C7, amended. Calling \<open>iterate\<close> creates the session without subscribing; the first pull
  starts the body, which subscribes and suspends. From then on no tick is lost: when \<open>n\<close>
  ticks fire while a pull is waiting, the resume job serves that pull and leaves \<open>n - 1\<close>
  ticks pending; when \<open>n\<close> ticks fire while the consumer holds a value and \<open>m\<close> ticks are
  pending, each of the next \<open>m + n\<close> pulls is served at once and consumes one tick, the pull
  after them suspends, and the next tick serves it.
\<close>

theorem pull_coalescing:
  "(pool_inv st \<and>
    (\<forall>s \<in> set (subscriptions_at d st). callback s \<noteq> IterCallback (next_session st)) \<longrightarrow>
      fst (iterate d st) = next_session st \<and>
      subscriptions_at d (snd (iterate d st)) = subscriptions_at d st \<and>
      suspended (next_session st) 0 (snd (gen_next (next_session st) (snd (iterate d st)))) \<and>
      (\<exists>h. attached (next_session st) d h
              (snd (gen_next (next_session st) (snd (iterate d st)))))) \<and>
   (attached k d h st \<and> suspended k dl st \<and> 0 < n \<longrightarrow>
      idle_at_yield k n (Suc dl) (steps (replicate n (Fire h) @ [Wake k]) st)) \<and>
   (attached k d h st \<and> idle_at_yield k (Suc m) dl st \<longrightarrow>
      (\<forall>j \<le> m + n. idle_at_yield k (Suc (m + n - j)) (dl + j)
            (steps (replicate n (Fire h) @ replicate j (Next k)) st)) \<and>
      suspended k (dl + m + n)
        (steps (replicate n (Fire h) @ replicate (Suc (m + n)) (Next k)) st) \<and>
      idle_at_yield k (Suc 0) (Suc (dl + m + n))
        (steps (replicate n (Fire h) @ replicate (Suc (m + n)) (Next k) @ [Fire h, Wake k]) st))"
  using first_pull [of st d] waiting_pull_is_served [of k d h st dl n]
    pending_ticks_are_served [of k d h st m dl n]
  by blast


text \<open>The definitions the operations of a session on a concrete pool state are evaluated with.\<close>

lemmas session_eval =
  iterate_def gen_next_def gen_wake_def gen_continue_def gen_finally_def set_session_def
  gen_outer.simps gen_inner.simps iter_callback_def attached_def idle_at_yield_def
  suspended_def settled_def eval_nat_numeral

theorem pull_coalescing_witness:
  "pool_inv new_pool \<and> subscriptions_at 1000 new_pool = [] \<and>
   suspended (next_session new_pool) 0
     (snd (gen_next (next_session new_pool) (snd (iterate 1000 new_pool)))) \<and>
   attached 0 1000 1 (snd (gen_next 0 (snd (iterate 1000 new_pool)))) \<and>
   suspended 0 0 (snd (gen_next 0 (snd (iterate 1000 new_pool)))) \<and>
   0 < (3::nat) \<and>
   idle_at_yield 0 3 (Suc 0)
     (steps (replicate 3 (Fire 1) @ [Wake 0]) (snd (gen_next 0 (snd (iterate 1000 new_pool))))) \<and>
   attached 0 1000 1 (steps [Fire 1, Wake 0] (snd (gen_next 0 (snd (iterate 1000 new_pool))))) \<and>
   idle_at_yield 0 (Suc 0) 1
     (steps [Fire 1, Wake 0] (snd (gen_next 0 (snd (iterate 1000 new_pool))))) \<and>
   suspended 0 (1 + 0 + 2)
     (steps (replicate 2 (Fire 1) @ replicate (Suc (0 + 2)) (Next 0))
        (steps [Fire 1, Wake 0] (snd (gen_next 0 (snd (iterate 1000 new_pool))))))"
proof -
  have a: "pool_inv new_pool \<and> subscriptions_at 1000 new_pool = []"
    by (simp add: pool_eval)
  then have a': "\<forall>s \<in> set (subscriptions_at 1000 new_pool).
      callback s \<noteq> IterCallback (next_session new_pool)"
    by simp
  have b: "attached 0 1000 1 (snd (gen_next 0 (snd (iterate 1000 new_pool)))) \<and>
           suspended 0 0 (snd (gen_next 0 (snd (iterate 1000 new_pool))))"
    by (simp add: pool_eval tick_eval session_eval)
  have c: "attached 0 1000 1 (steps [Fire 1, Wake 0] (snd (gen_next 0 (snd (iterate 1000 new_pool))))) \<and>
           idle_at_yield 0 (Suc 0) 1
             (steps [Fire 1, Wake 0] (snd (gen_next 0 (snd (iterate 1000 new_pool)))))"
    by (simp add: pool_eval tick_eval session_eval)
  have n: "0 < (3::nat)" by simp
  show ?thesis
    using a a' b c n
      pull_coalescing [where st = new_pool and d = 1000 and k = 0 and h = 1 and dl = 0
        and n = 0 and m = 0]
      pull_coalescing [where st = "snd (gen_next 0 (snd (iterate 1000 new_pool)))" and d = 1000
        and k = 0 and h = 1 and dl = 0 and n = 3 and m = 0]
      pull_coalescing [where st = "steps [Fire 1, Wake 0]
          (snd (gen_next 0 (snd (iterate 1000 new_pool))))" and d = 1000
        and k = 0 and h = 1 and dl = 1 and n = 2 and m = 0]
    by blast
qed


text \<open>
  C7 as stated fails for a session that \<open>iterate\<close> has created and that has not been pulled:
  another subscriber keeps the timer of the period firing, three ticks fire, and the first
  pull suspends with nothing delivered.
\<close>

theorem pull_coalescing_counterexample:
  "fst (iterate 1000 (snd (step (Run 1000 (User 1 False)) new_pool))) = 0 \<and>
   length (calls (steps [Run 1000 (User 1 False), Iterate 1000, Fire 1, Fire 1, Fire 1] new_pool))
     = 3 \<and>
   pc (sessions (steps [Run 1000 (User 1 False), Iterate 1000, Fire 1, Fire 1, Fire 1] new_pool) 0)
     = NotStarted \<and>
   lostTicks (sessions (steps [Run 1000 (User 1 False), Iterate 1000, Fire 1, Fire 1, Fire 1]
                          new_pool) 0) = 0 \<and>
   suspended 0 0
     (steps [Run 1000 (User 1 False), Iterate 1000, Fire 1, Fire 1, Fire 1, Next 0] new_pool)"
  by (simp add: pool_eval tick_eval session_eval)

section \<open>Order and isolation within a tick\<close>

lemma fire_trace:
  assumes inv: "pool_inv st" and f: "find (\<lambda>t. fst t = h) (timers st) = Some (h', a, d)"
  shows "fst (fire h st) = None \<and>
         calls (snd (fire h st)) = calls st @ subscriptions_at d st \<and>
         console (snd (fire h st)) =
           console st @ filter cb_throws (map callback (subscriptions_at d st))"
proof -
  have tin: "(h', a, d) \<in> set (timers st)" using f by (auto simp add: find_Some_iff in_set_conv_nth)
  then have m: "(d, a) \<in> set (buckets st)" using pool_inv_timer [OF inv tin] by simp
  have ok: "bucket_ok st d a" using pool_inv_member [OF inv m] .
  have at: "subscriptions_at d st = b_subscriptions (objects st a)"
    using subscriptions_at_member [OF inv m] .
  have unf: "fire h st = bucket_forEach (b_subscriptions (objects st a)) a st"
    using f by (simp add: fire_def bucket_handleIntervalTick_def)
  show ?thesis
    unfolding unf at
    using bucket_forEach_trace [of "b_subscriptions (objects st a)" st a] ok
    by (simp add: bucket_ok_def)
qed

lemma reachable_pool_inv: "pool_inv (steps xs new_pool)"
  using steps_inv [OF new_pool_inv] .

text \<open>
  C3. On every tick of a bucket's timer the subscriptions are invoked in registration order:
  the subscriptions whose callback a tick invokes are those of the set, in the order of the
  set, and \<open>add\<close> puts a new subscription at the end of that order. This holds for the bucket
  of \<open>src/bucket.ts\<close>, for the bucket with a disposed state, and in the pool, where
  \<open>run\<close> appends to the subscriptions of the period and a firing timer invokes them in that
  order.
\<close>

theorem fan_out_in_registration_order:
  "(distinct (subscriptions b) \<longrightarrow>
      calls (snd (handleIntervalTick (b, e))) = calls e @ subscriptions b) \<and>
   (s \<notin> set (subscriptions b) \<longrightarrow>
      subscriptions (fst (add s (b, e))) = subscriptions b @ [s]) \<and>
   (\<not> b_disposed (objects st a) \<and> distinct (b_subscriptions (objects st a)) \<longrightarrow>
      calls (snd (bucket_handleIntervalTick a st)) =
        calls st @ b_subscriptions (objects st a)) \<and>
   (\<not> b_disposed (objects st a) \<and> s \<notin> set (b_subscriptions (objects st a)) \<longrightarrow>
      b_subscriptions (objects (snd (bucket_add a s st)) a) =
        b_subscriptions (objects st a) @ [s]) \<and>
   (pool_inv st \<longrightarrow>
      subscriptions_at d (snd (snd (run d cb st))) =
        subscriptions_at d st @ [fst (snd (run d cb st))] \<and>
      subscriptions_at d (snd (snd (once_fn d cb st))) =
        subscriptions_at d st @ [fst (snd (once_fn d cb st))]) \<and>
   (pool_inv st \<and> find (\<lambda>t. fst t = h) (timers st) = Some (h, a, d) \<longrightarrow>
      calls (snd (fire h st)) = calls st @ subscriptions_at d st)"
proof -
  have p: "pool_inv st \<longrightarrow>
      subscriptions_at d (snd (snd (run d cb st))) =
        subscriptions_at d st @ [fst (snd (run d cb st))] \<and>
      subscriptions_at d (snd (snd (once_fn d cb st))) =
        subscriptions_at d st @ [fst (snd (once_fn d cb st))]"
  proof
    assume inv: "pool_inv st"
    show "subscriptions_at d (snd (snd (run d cb st))) =
        subscriptions_at d st @ [fst (snd (run d cb st))] \<and>
      subscriptions_at d (snd (snd (once_fn d cb st))) =
        subscriptions_at d st @ [fst (snd (once_fn d cb st))]"
      using run_effect(1) [OF inv, of d cb] run_effect(2) [OF inv, where d = d and d' = d and cb = cb]
        once_effect(1) [OF inv, of d cb] once_effect(2) [OF inv, where d = d and d' = d and cb = cb]
      by simp
  qed
  have q: "pool_inv st \<and> find (\<lambda>t. fst t = h) (timers st) = Some (h, a, d) \<longrightarrow>
      calls (snd (fire h st)) = calls st @ subscriptions_at d st"
    using fire_trace [of st h h a d] by simp
  show ?thesis
    using forEach_trace [of "subscriptions b" b e]
      bucket_forEach_trace [of "b_subscriptions (objects st a)" st a]
      add_appends [of s b e] bucket_add_appends [of st a s] p q
    by (simp add: handleIntervalTick_def bucket_handleIntervalTick_def)
qed

theorem fan_out_in_registration_order_witness:
  "(let b = \<lparr>intervalId = Some 1, delay = 100, subscriptions =
               [\<lparr>sid = 0, callback = User 10 False, once = False\<rparr>,
                \<lparr>sid = 1, callback = User 11 True, once = True\<rparr>]\<rparr>;
        s = \<lparr>sid = 2, callback = User 12 False, once = False\<rparr>;
        st = snd (snd (run 1000 (User 10 False) new_pool))
    in distinct (subscriptions b) \<and>
       calls (snd (handleIntervalTick (b, new_env))) = subscriptions b \<and>
       s \<notin> set (subscriptions b) \<and>
       subscriptions (fst (add s (b, new_env))) = subscriptions b @ [s] \<and>
       \<not> b_disposed (objects st 0) \<and> distinct (b_subscriptions (objects st 0)) \<and>
       calls (snd (bucket_handleIntervalTick 0 st)) =
         [\<lparr>sid = 0, callback = User 10 False, once = False\<rparr>] \<and>
       s \<notin> set (b_subscriptions (objects st 0)) \<and>
       b_subscriptions (objects (snd (bucket_add 0 s st)) 0) =
         [\<lparr>sid = 0, callback = User 10 False, once = False\<rparr>, s] \<and>
       pool_inv st \<and> find (\<lambda>t. fst t = 1) (timers st) = Some (1, 0, 1000) \<and>
       subscriptions_at 1000 (snd (snd (run 1000 (User 11 False) st))) =
         [\<lparr>sid = 0, callback = User 10 False, once = False\<rparr>,
          \<lparr>sid = 1, callback = User 11 False, once = False\<rparr>] \<and>
       calls (snd (fire 1 st)) = [\<lparr>sid = 0, callback = User 10 False, once = False\<rparr>])"
  using fan_out_in_registration_order
    [where b = "\<lparr>intervalId = Some 1, delay = 100, subscriptions =
               [\<lparr>sid = 0, callback = User 10 False, once = False\<rparr>,
                \<lparr>sid = 1, callback = User 11 True, once = True\<rparr>]\<rparr>"
       and e = new_env and s = "\<lparr>sid = 2, callback = User 12 False, once = False\<rparr>"
       and st = "snd (snd (run 1000 (User 10 False) new_pool))" and a = 0 and d = 1000
       and cb = "User 11 False" and h = 1]
  by (simp add: pool_eval)

text \<open>
  With callbacks that do not call the pool or the bucket: a callback that raises is caught
  and reported where it is invoked; the tick reports exactly the raising callbacks to the
  console, in order, and every subscription of the set, before or after a raising one, has
  its callback invoked. In \<open>src/bucket.ts\<close> nothing but the callback can raise during a
  tick, so its tick handler has no error result; the tick handler of the bucket with a
  disposed state has one, and for these callbacks it is \<open>None\<close>.
\<close>

lemma isolation_without_pool_calls:
  "(distinct (subscriptions b) \<longrightarrow>
      calls (snd (handleIntervalTick (b, e))) = calls e @ subscriptions b \<and>
      console (snd (handleIntervalTick (b, e))) =
        console e @ filter cb_throws (map callback (subscriptions b))) \<and>
   (\<not> b_disposed (objects st a) \<and> distinct (b_subscriptions (objects st a)) \<longrightarrow>
      fst (bucket_handleIntervalTick a st) = None \<and>
      calls (snd (bucket_handleIntervalTick a st)) =
        calls st @ b_subscriptions (objects st a) \<and>
      console (snd (bucket_handleIntervalTick a st)) =
        console st @ filter cb_throws (map callback (b_subscriptions (objects st a)))) \<and>
   (pool_inv st \<longrightarrow> fst (fire h st) = None) \<and>
   (pool_inv st \<and> find (\<lambda>t. fst t = h) (timers st) = Some (h, a, d) \<longrightarrow>
      calls (snd (fire h st)) = calls st @ subscriptions_at d st \<and>
      console (snd (fire h st)) =
        console st @ filter cb_throws (map callback (subscriptions_at d st)))"
  using forEach_trace [of "subscriptions b" b e]
    bucket_forEach_trace [of "b_subscriptions (objects st a)" st a]
    fire_trace [of st h h a d] fire_inv_any [of st h]
  by (simp add: handleIntervalTick_def bucket_handleIntervalTick_def)

text \<open>A tick whose callbacks have empty scripts is the tick above.\<close>

lemma invoke_script_empty: "invoke_script (\<lambda>l. []) s st = invoke s st"
  by (simp add: invoke_script_def invoke_def split: callback.splits)

lemma notifySubscription_script_empty:
  "notifySubscription_script (\<lambda>l. []) a s st = notifySubscription a s st"
  by (simp add: notifySubscription_script_def notifySubscription_def invoke_script_empty)

lemma bucket_forEach_script_empty:
  "bucket_forEach_script (\<lambda>l. []) xs a st = bucket_forEach xs a st"
  by (induction xs arbitrary: st)
     (simp_all add: notifySubscription_script_empty split: prod.splits option.splits)

lemma bucket_handleIntervalTick_script_empty:
  "bucket_handleIntervalTick_script (\<lambda>l. []) a st = bucket_handleIntervalTick a st"
  by (simp add: bucket_handleIntervalTick_script_def bucket_handleIntervalTick_def
      bucket_forEach_script_empty)

lemma fire_script_empty: "fire_script (\<lambda>l. []) h st = fire h st"
  by (simp add: fire_script_def fire_def bucket_handleIntervalTick_script_empty
      split: option.splits)



end
